theory Spec2Isabelle
  imports Complex_Main "HOL-Library.AList"
begin

section \<open>PairMap: the map generator of \<^verbatim>\<open>src/pairmap/map_generator.py\<close>\<close>

text \<open>
  The class \<^verbatim>\<open>MapGenerator\<close> is embedded as a record of its attributes; every method
  takes the record and returns a result of type \<open>error + _\<close>, one constructor of
  \<open>error\<close> per exception the Python code (or a library call it makes) can raise.

  Scores are Python floats. The embedding computes with exact rationals: a score is a
  \<open>rat\<close>, \<^verbatim>\<open>np.round(x, decimals=2)\<close> is rounding to the nearest hundredth with ties to
  even, and a reciprocal of zero is the IEEE infinity. Rounding errors of the binary
  representation are not modelled.
\<close>

subsection \<open>Exceptions\<close>

datatype error =
    SizeMismatch
      \<comment> \<open>\<^verbatim>\<open>Exception('The size of the custom score matrix does not match ...')\<close>\<close>
  | NotSquare nat nat
      \<comment> \<open>\<^verbatim>\<open>Exception('The custom score matrix must be a square matrix, ...')\<close>\<close>
  | NoPathFound
      \<comment> \<open>\<^verbatim>\<open>Exception('No path found, please check the input.')\<close>\<close>
  | InvalidMainSubgraph
  | InvalidReachableSubgraph
  | InvalidCycleSubgraph
  | InvalidInitialGraph
  | IndexError
  | KeyError
  | TypeError
  | ZeroDivisionError
  | NodeNotFound
      \<comment> \<open>\<^verbatim>\<open>networkx.NodeNotFound\<close>\<close>
  | NetworkXError
  | OverflowError
  | ValueError
  | RecursionError
      \<comment> \<open>the recursion of \<^verbatim>\<open>chunk_process\<close> or a loop did not end within the fuel\<close>


subsection \<open>Graphs (\<^verbatim>\<open>networkx.Graph\<close>)\<close>

text \<open>
  An undirected simple graph with attributes. Nodes are kept in insertion order with
  their optional \<^verbatim>\<open>label\<close>; every edge is stored once, under the key with its smaller
  endpoint first, in insertion order, with its attribute bundle. The adjacency of a
  node is the list of its edges in that order, as in networkx's dictionaries.
\<close>

type_synonym edge = "nat \<times> nat"

record edge_attrs =
  score :: rat
  found_path_attr :: "bool option"

record graph =
  node_list :: "(nat \<times> string option) list"
  edge_list :: "(edge \<times> edge_attrs) list"

definition empty_graph :: graph where
  "empty_graph = \<lparr>node_list = [], edge_list = []\<rparr>"

definition edge_key :: "nat \<Rightarrow> nat \<Rightarrow> edge" where
  "edge_key u v = (if u \<le> v then (u, v) else (v, u))"

definition nodes_of :: "graph \<Rightarrow> nat list" where
  "nodes_of g = map fst (node_list g)"

definition has_node :: "graph \<Rightarrow> nat \<Rightarrow> bool" where
  "has_node g n = (n \<in> set (nodes_of g))"

definition add_node :: "graph \<Rightarrow> nat \<Rightarrow> graph" where
  "add_node g n = (if has_node g n then g else g\<lparr>node_list := node_list g @ [(n, None)]\<rparr>)"

definition set_label :: "graph \<Rightarrow> nat \<Rightarrow> string \<Rightarrow> graph" where
  \<comment> \<open>\<^verbatim>\<open>graph.nodes[i]['label'] = name\<close>, for a node of the graph\<close>
  "set_label g n l =
     g\<lparr>node_list := map (\<lambda>(m, a). if m = n then (m, Some l) else (m, a)) (node_list g)\<rparr>"

definition get_edge_data :: "graph \<Rightarrow> nat \<Rightarrow> nat \<Rightarrow> edge_attrs option" where
  "get_edge_data g u v = map_of (edge_list g) (edge_key u v)"

definition merge_attrs :: "edge_attrs \<Rightarrow> edge_attrs \<Rightarrow> edge_attrs" where
  \<comment> \<open>\<^verbatim>\<open>datadict.update(attr)\<close>: the keys given overwrite, the others stay\<close>
  "merge_attrs old new =
     \<lparr>score = score new,
      found_path_attr = (case found_path_attr new of None \<Rightarrow> found_path_attr old | Some b \<Rightarrow> Some b)\<rparr>"

definition add_edge :: "graph \<Rightarrow> nat \<Rightarrow> nat \<Rightarrow> edge_attrs \<Rightarrow> graph" where
  \<comment> \<open>adds missing endpoints as unlabelled nodes; an existing edge keeps its place\<close>
  "add_edge g u v d =
     (let g1 = add_node (add_node g u) v; k = edge_key u v
      in g1\<lparr>edge_list :=
            AList.update k (case map_of (edge_list g) k of None \<Rightarrow> d
                            | Some old \<Rightarrow> merge_attrs old d) (edge_list g)\<rparr>)"

definition remove_edges_from :: "graph \<Rightarrow> edge list \<Rightarrow> graph" where
  \<comment> \<open>absent edges are ignored silently\<close>
  "remove_edges_from g es =
     g\<lparr>edge_list := filter (\<lambda>(k, d). k \<notin> set (map (\<lambda>(u, v). edge_key u v) es)) (edge_list g)\<rparr>"

definition remove_edge :: "graph \<Rightarrow> nat \<Rightarrow> nat \<Rightarrow> error + graph" where
  "remove_edge g u v =
     (if get_edge_data g u v = None then Inl NetworkXError
      else Inr (g\<lparr>edge_list := AList.delete (edge_key u v) (edge_list g)\<rparr>))"

definition subgraph :: "graph \<Rightarrow> nat list \<Rightarrow> graph" where
  \<comment> \<open>the subgraph induced by the nodes of \<open>ns\<close> that the graph has\<close>
  "subgraph g ns =
     \<lparr>node_list = filter (\<lambda>(n, a). n \<in> set ns) (node_list g),
      edge_list = filter (\<lambda>((u, v), d). u \<in> set ns \<and> v \<in> set ns) (edge_list g)\<rparr>"

definition adjacency :: "graph \<Rightarrow> nat \<Rightarrow> (nat \<times> edge_attrs) list" where
  \<comment> \<open>\<^verbatim>\<open>graph[n]\<close>: the neighbours of \<open>n\<close> with the edge attributes, in insertion order\<close>
  "adjacency g n =
     map (\<lambda>((u, v), d). (if u = n then v else u, d))
       (filter (\<lambda>((u, v), d). u = n \<or> v = n) (edge_list g))"

definition neighbors :: "graph \<Rightarrow> nat \<Rightarrow> nat list" where
  "neighbors g n = map fst (adjacency g n)"

fun edges_from :: "graph \<Rightarrow> nat list \<Rightarrow> nat list \<Rightarrow> (nat \<times> nat \<times> edge_attrs) list" where
  "edges_from g seen [] = []"
| "edges_from g seen (n # ns) =
     map (\<lambda>(nbr, d). (n, nbr, d)) (filter (\<lambda>(nbr, d). nbr \<notin> set seen) (adjacency g n))
     @ edges_from g (n # seen) ns"

definition edges_view :: "graph \<Rightarrow> (nat \<times> nat \<times> edge_attrs) list" where
  \<comment> \<open>\<^verbatim>\<open>graph.edges(data=True)\<close>: node by node in node order, every edge reported from
      the endpoint that comes first\<close>
  "edges_view g = edges_from g [] (nodes_of g)"


subsection \<open>The constructor\<close>

type_synonym matrix = "rat list list"

record params =
  intermediate_list :: "string option list"
    \<comment> \<open>an intermediate is opaque but for its optional \<^verbatim>\<open>_Name\<close> property\<close>
  optimal_path_mode :: bool
  maxPathLength :: nat
  cycleLength :: nat
  maxOptimalPathLength :: nat
  roughMaxPathLength :: nat
  roughScoreThreshold :: rat
  minScoreThreshold :: rat
  chunkScale :: nat
  source_node_index :: nat
  target_node_index :: nat
  jobs :: nat
  verbose :: bool

record map_generator = params +
  intermediate_names :: "string list"
  score_matrix :: "matrix option"
  N :: nat
  found_path :: "nat list"
  found_links :: "edge list"
  optimal_path_graph :: graph
  scoresList :: "(nat \<times> nat \<times> rat) list"
  initialCycledNodesSet :: "nat set"
  initialCycledEdgesSet :: "edge set"
  tmp_subgraph :: graph
  final_graph :: graph

text \<open>
  The last six attributes do not exist before \<^verbatim>\<open>build_map\<close> assigns them; the
  constructor of the model gives them empty values, and nothing reads them before
  their assignment.
\<close>

definition default_params :: "string option list \<Rightarrow> params" where
  "default_params il =
     \<lparr>intermediate_list = il, optimal_path_mode = False, maxPathLength = 4, cycleLength = 3,
      maxOptimalPathLength = 3, roughMaxPathLength = 2, roughScoreThreshold = 1/2,
      minScoreThreshold = 1/5, chunkScale = 10, source_node_index = 0, target_node_index = 1,
      jobs = 0, verbose = False\<rparr>"

definition digit_char :: "nat \<Rightarrow> char" where
  "digit_char d = char_of (48 + d)"

function decimal :: "nat \<Rightarrow> string" where
  "decimal n = (if n < 10 then [digit_char n] else decimal (n div 10) @ [digit_char (n mod 10)])"
  by pat_completeness auto
termination
  by (relation "measure id") auto

definition default_name :: "nat \<Rightarrow> string" where
  \<comment> \<open>\<^verbatim>\<open>f'intermediate-{i:04d}'\<close>\<close>
  "default_name i =
     ''intermediate-'' @ replicate (4 - length (decimal i)) (CHR ''0'') @ decimal i"

definition names_of :: "string option list \<Rightarrow> string list" where
  "names_of il =
     map (\<lambda>(i, p). case p of Some nm \<Rightarrow> nm | None \<Rightarrow> default_name i) (zip [0 ..< length il] il)"

definition check_matrix :: "matrix \<Rightarrow> nat \<Rightarrow> error + matrix" where
  \<comment> \<open>lines 33 to 38: the number of rows, then the length of the first row\<close>
  "check_matrix m n =
     (if length m \<noteq> n then Inl SizeMismatch
      else case m of
             [] \<Rightarrow> Inl IndexError
           | r # rs \<Rightarrow> if length r \<noteq> n then Inl (NotSquare (length m) (length r)) else Inr m)"

definition MapGenerator_init :: "params \<Rightarrow> matrix option \<Rightarrow> error + map_generator" where
  "MapGenerator_init p custum_score_matrix =
     (case (case custum_score_matrix of
              None \<Rightarrow> Inr None
            | Some m \<Rightarrow> (case check_matrix m (length (intermediate_list p)) of
                          Inl e \<Rightarrow> Inl e | Inr m' \<Rightarrow> Inr (Some m'))) of
        Inl e \<Rightarrow> Inl e
      | Inr sm \<Rightarrow>
          Inr \<lparr>intermediate_list = intermediate_list p,
               optimal_path_mode = optimal_path_mode p,
               maxPathLength = maxPathLength p,
               cycleLength = cycleLength p,
               maxOptimalPathLength = maxOptimalPathLength p,
               roughMaxPathLength = roughMaxPathLength p,
               roughScoreThreshold = roughScoreThreshold p,
               minScoreThreshold = minScoreThreshold p,
               chunkScale = chunkScale p,
               source_node_index = source_node_index p,
               target_node_index = target_node_index p,
               jobs = jobs p,
               verbose = verbose p,
               intermediate_names = names_of (intermediate_list p),
               score_matrix = sm,
               N = length (intermediate_list p),
               found_path = [source_node_index p, target_node_index p],
               found_links = [(source_node_index p, target_node_index p)],
               optimal_path_graph = empty_graph,
               scoresList = [],
               initialCycledNodesSet = {},
               initialCycledEdgesSet = {},
               tmp_subgraph = empty_graph,
               final_graph = empty_graph\<rparr>)"

subsection \<open>Building graphs from the score matrix\<close>

definition rint :: "rat \<Rightarrow> int" where
  \<comment> \<open>round to the nearest integer, ties to the even one\<close>
  "rint y =
     (let f = \<lfloor>y\<rfloor>; d = y - of_int f
      in if d < 1/2 then f else if 1/2 < d then f + 1 else if even f then f else f + 1)"

definition np_round2 :: "rat \<Rightarrow> rat" where
  \<comment> \<open>\<^verbatim>\<open>np.round(score, decimals=2)\<close>\<close>
  "np_round2 x = of_int (rint (x * 100)) / 100"

definition matrix_get :: "matrix option \<Rightarrow> nat \<Rightarrow> nat \<Rightarrow> error + rat" where
  \<comment> \<open>\<^verbatim>\<open>self.score_matrix[u][v]\<close>\<close>
  "matrix_get mo u v =
     (case mo of
        None \<Rightarrow> Inl TypeError
      | Some m \<Rightarrow> if u < length m \<and> v < length (m ! u) then Inr (m ! u ! v) else Inl IndexError)"

definition combinations2 :: "nat \<Rightarrow> (nat \<times> nat) list" where
  \<comment> \<open>\<^verbatim>\<open>itertools.combinations(range(n), 2)\<close>\<close>
  "combinations2 n = concat (map (\<lambda>u. map (Pair u) [Suc u ..< n]) [0 ..< n])"

fun set_edges :: "matrix option \<Rightarrow> rat \<Rightarrow> graph \<Rightarrow> (nat \<times> nat) list \<Rightarrow> error + graph" where
  \<comment> \<open>lines 84 to 88, the inner loop\<close>
  "set_edges mo min_score g [] = Inr g"
| "set_edges mo min_score g ((u, v) # ps) =
     (case matrix_get mo u v of
        Inl e \<Rightarrow> Inl e
      | Inr s \<Rightarrow>
          (let round_score = np_round2 s
           in set_edges mo min_score
                (if round_score \<ge> min_score
                 then add_edge g u v \<lparr>score = round_score, found_path_attr = None\<rparr> else g) ps))"

fun make_graph_loop ::
  "map_generator \<Rightarrow> rat \<Rightarrow> graph \<Rightarrow> (nat \<times> string) list \<Rightarrow> error + graph" where
  \<comment> \<open>lines 80 to 88, the outer loop over \<^verbatim>\<open>enumerate(self.intermediate_names)\<close>\<close>
  "make_graph_loop self min_score g [] = Inr g"
| "make_graph_loop self min_score g ((i, name) # rest) =
     (case set_edges (score_matrix self) min_score (set_label (add_node g i) i name)
             (combinations2 (N self)) of
        Inl e \<Rightarrow> Inl e
      | Inr g' \<Rightarrow> make_graph_loop self min_score g' rest)"

definition enumerate_names :: "map_generator \<Rightarrow> (nat \<times> string) list" where
  "enumerate_names self =
     zip [0 ..< length (intermediate_names self)] (intermediate_names self)"

definition make_graph :: "map_generator \<Rightarrow> rat option \<Rightarrow> error + graph" where
  "make_graph self min_score =
     make_graph_loop self (case min_score of None \<Rightarrow> minScoreThreshold self | Some t \<Rightarrow> t)
       empty_graph (enumerate_names self)"

fun path_links :: "nat list \<Rightarrow> (nat \<times> nat) list" where
  \<comment> \<open>the pairs \<^verbatim>\<open>(path[i], path[i+1])\<close> for \<^verbatim>\<open>i in range(len(path)-1)\<close>\<close>
  "path_links (u # v # p) = (u, v) # path_links (v # p)"
| "path_links p = []"

fun add_path_edges :: "matrix option \<Rightarrow> graph \<Rightarrow> (nat \<times> nat) list \<Rightarrow> error + graph" where
  "add_path_edges mo g [] = Inr g"
| "add_path_edges mo g ((u, v) # ps) =
     (case matrix_get mo u v of
        Inl e \<Rightarrow> Inl e
      | Inr s \<Rightarrow> add_path_edges mo (add_edge g u v \<lparr>score = s, found_path_attr = None\<rparr>) ps)"

definition make_optimal_path_graph :: "map_generator \<Rightarrow> error + graph" where
  "make_optimal_path_graph self =
     add_path_edges (score_matrix self)
       (fold (\<lambda>(i, name) g. if i \<in> set (found_path self)
                             then set_label (add_node g i) i name else g)
          (enumerate_names self) empty_graph)
       (path_links (found_path self))"

subsection \<open>Library calls: paths, cycles, components, bridges\<close>

fun paths_from :: "graph \<Rightarrow> nat \<Rightarrow> nat \<Rightarrow> nat list \<Rightarrow> nat \<Rightarrow> nat list list" where
  \<comment> \<open>depth-first, in adjacency order: \<open>path\<close> is the path walked so far, ending in
      \<open>cur\<close>; \<open>k\<close> edges may still be added; the search does not go on through the target\<close>
  "paths_from g t 0 path cur = []"
| "paths_from g t (Suc k) path cur =
     concat (map (\<lambda>c. if c \<in> set path then []
                         else if c = t then [path @ [c]]
                         else paths_from g t k (path @ [c]) c) (neighbors g cur))"

definition all_simple_paths :: "graph \<Rightarrow> nat \<Rightarrow> nat \<Rightarrow> nat \<Rightarrow> error + nat list list" where
  \<comment> \<open>\<^verbatim>\<open>list(nx.all_simple_paths(g, s, t, cutoff=cutoff))\<close>, networkx 3.2 and later: the
      paths of at most \<open>cutoff\<close> edges; the path of no edge when source and target agree\<close>
  "all_simple_paths g s t cutoff =
     (if has_node g s \<and> has_node g t
      then (if s = t then Inr [[s]] else Inr (paths_from g t cutoff [s] s))
      else Inl NodeNotFound)"

fun cycles_from :: "graph \<Rightarrow> nat \<Rightarrow> nat \<Rightarrow> nat list \<Rightarrow> nat \<Rightarrow> nat list list" where
  \<comment> \<open>the cycles through \<open>v\<close> that extend \<open>path\<close> (from \<open>v\<close> to \<open>cur\<close>) by at most
      \<open>k\<close> further nodes\<close>
  "cycles_from g v 0 path cur = []"
| "cycles_from g v (Suc k) path cur =
     concat (map (\<lambda>c. if c \<in> set path then []
                         else (if 2 \<le> length path \<and> v \<in> set (neighbors g c)
                               then [path @ [c]] else [])
                              @ cycles_from g v k (path @ [c]) c) (neighbors g cur))"

definition simple_cycles :: "graph \<Rightarrow> nat \<Rightarrow> nat list list" where
  \<comment> \<open>\<^verbatim>\<open>list(nx.simple_cycles(g, length_bound=b))\<close> on a graph with no self-loop: the
      cycles of three to \<open>b\<close> nodes. A cycle is listed from each of its nodes and in both
      directions; the callers only read the node sets.\<close>
  "simple_cycles g b = concat (map (\<lambda>v. cycles_from g v (b - 1) [v] v) (nodes_of g))"

fun grow :: "graph \<Rightarrow> nat \<Rightarrow> nat list \<Rightarrow> nat list" where
  "grow g 0 acc = acc"
| "grow g (Suc k) acc =
     grow g k (acc @ remdups (filter (\<lambda>n. n \<notin> set acc) (concat (map (neighbors g) acc))))"

definition component :: "graph \<Rightarrow> nat \<Rightarrow> nat list" where
  \<comment> \<open>the nodes connected to \<open>v\<close>\<close>
  "component g v = grow g (length (edge_list g)) [v]"

fun components_from :: "graph \<Rightarrow> nat list \<Rightarrow> nat list \<Rightarrow> nat list list" where
  "components_from g seen [] = []"
| "components_from g seen (n # ns) =
     (if n \<in> set seen then components_from g seen ns
      else component g n # components_from g (component g n @ seen) ns)"

definition connected_components :: "graph \<Rightarrow> nat list list" where
  \<comment> \<open>\<^verbatim>\<open>list(nx.connected_components(g))\<close>\<close>
  "connected_components g = components_from g [] (nodes_of g)"

definition find_bridges :: "graph \<Rightarrow> edge list" where
  \<comment> \<open>Modelled from the spec: find_bridges of \<^verbatim>\<open>pairmap/utils\<close>, which is not among the
      sources. The spec: `Compute the bridge set of G'; an edge is a bridge when its
      removal disconnects its endpoints. Edges are given with the smaller endpoint
      first, as the found links are.\<close>
  "find_bridges g =
     map fst (filter (\<lambda>((u, v), d). v \<notin> set (component (remove_edges_from g [(u, v)]) u))
                (edge_list g))"

subsection \<open>The optimal path\<close>

datatype np_float = Finite rat | PosInf

instantiation np_float :: linorder
begin

fun less_eq_np_float :: "np_float \<Rightarrow> np_float \<Rightarrow> bool" where
  "less_eq_np_float (Finite a) (Finite b) = (a \<le> b)"
| "less_eq_np_float x PosInf = True"
| "less_eq_np_float PosInf (Finite b) = False"

definition less_np_float :: "np_float \<Rightarrow> np_float \<Rightarrow> bool" where
  "less_np_float x y = (x \<le> y \<and> \<not> y \<le> x)"

instance
proof
  fix x y z :: np_float
  show "(x < y) = (x \<le> y \<and> \<not> y \<le> x)" by (simp add: less_np_float_def)
  show "x \<le> x" by (cases x) auto
  show "x \<le> y \<Longrightarrow> y \<le> z \<Longrightarrow> x \<le> z" by (cases x; cases y; cases z) auto
  show "x \<le> y \<Longrightarrow> y \<le> x \<Longrightarrow> x = y" by (cases x; cases y) auto
  show "x \<le> y \<or> y \<le> x" by (cases x; cases y) auto
qed

end

definition np_recip :: "rat \<Rightarrow> np_float" where
  \<comment> \<open>\<^verbatim>\<open>1/x\<close> on a numpy array: no exception, the reciprocal of zero is infinite\<close>
  "np_recip x = (if x = 0 then PosInf else Finite (1 / x))"

fun np_add :: "np_float \<Rightarrow> np_float \<Rightarrow> np_float" where
  "np_add (Finite a) (Finite b) = Finite (a + b)"
| "np_add x y = PosInf"

definition np_sum :: "np_float list \<Rightarrow> np_float" where
  "np_sum xs = foldr np_add xs (Finite 0)"

fun argmin_from :: "np_float \<Rightarrow> nat \<Rightarrow> nat \<Rightarrow> np_float list \<Rightarrow> nat" where
  \<comment> \<open>the least value so far, its index, the index of the next element\<close>
  "argmin_from b bi i [] = bi"
| "argmin_from b bi i (x # xs) =
     (if x < b then argmin_from x i (Suc i) xs else argmin_from b bi (Suc i) xs)"

definition argmin :: "np_float list \<Rightarrow> nat" where
  \<comment> \<open>\<^verbatim>\<open>np.argmin\<close> of a non-empty list: the first index of the minimum\<close>
  "argmin xs = (case xs of [] \<Rightarrow> 0 | x # ys \<Rightarrow> argmin_from x 0 1 ys)"

fun path_scores :: "graph \<Rightarrow> (nat \<times> nat) list \<Rightarrow> error + rat list" where
  \<comment> \<open>\<^verbatim>\<open>[graph.get_edge_data(path[i], path[i+1])['score'] for i in ...]\<close>\<close>
  "path_scores g [] = Inr []"
| "path_scores g ((u, v) # ls) =
     (case get_edge_data g u v of
        None \<Rightarrow> Inl TypeError
      | Some d \<Rightarrow> (case path_scores g ls of Inl e \<Rightarrow> Inl e | Inr ss \<Rightarrow> Inr (score d # ss)))"

fun path_scores_list :: "graph \<Rightarrow> nat list list \<Rightarrow> error + rat list list" where
  "path_scores_list g [] = Inr []"
| "path_scores_list g (p # ps) =
     (case path_scores g (path_links p) of
        Inl e \<Rightarrow> Inl e
      | Inr ss \<Rightarrow> (case path_scores_list g ps of
                    Inl e \<Rightarrow> Inl e | Inr sss \<Rightarrow> Inr (sort ss # sss)))"

definition ordered_link :: "nat \<times> nat \<Rightarrow> edge" where
  "ordered_link l = (case l of (u, v) \<Rightarrow> if u < v then (u, v) else (v, u))"

definition find_optimal_path :: "map_generator \<Rightarrow> error + (nat list \<times> map_generator)" where
  \<comment> \<open>The rough search of lines 94 to 101 only prints; of \<^verbatim>\<open>nx.has_path\<close> the model
      keeps the exception for a source or target that is no node.\<close>
  "find_optimal_path self =
     (case make_graph self (Some (roughScoreThreshold self)) of
        Inl e \<Rightarrow> Inl e
      | Inr rough \<Rightarrow>
          if \<not> (has_node rough (source_node_index self) \<and>
                has_node rough (target_node_index self))
          then Inl NodeNotFound
          else
            (case make_graph self None of
               Inl e \<Rightarrow> Inl e
             | Inr g \<Rightarrow>
                 (case all_simple_paths g (source_node_index self) (target_node_index self)
                         (maxOptimalPathLength self) of
                    Inl e \<Rightarrow> Inl e
                  | Inr paths \<Rightarrow>
                      if length paths = 0 then Inl NoPathFound
                      else
                        (case path_scores_list g paths of
                           Inl e \<Rightarrow> Inl e
                         | Inr pss \<Rightarrow>
                             (let sum_scores = map (\<lambda>scores. np_sum (map np_recip scores)) pss;
                                  best_idx = argmin sum_scores;
                                  fp = paths ! best_idx
                              in Inr (fp, self\<lparr>found_path := fp,
                                               found_links := map ordered_link (path_links fp)\<rparr>))))))"

subsection \<open>Cycle coverings and subgraph reductions\<close>

definition get_cycled_nodes :: "map_generator \<Rightarrow> graph \<Rightarrow> nat set" where
  "get_cycled_nodes self g =
     set (found_path self) \<inter>
     set (concat (filter (\<lambda>path. list_ex (\<lambda>node. node \<in> set (butlast (tl (found_path self)))) path)
                    (simple_cycles g (cycleLength self))))"

definition get_cycled_edges :: "map_generator \<Rightarrow> graph \<Rightarrow> edge set" where
  "get_cycled_edges self g = set (found_links self) - set (find_bridges g)"

definition check_node_cycle_covering :: "map_generator \<Rightarrow> graph \<Rightarrow> bool" where
  "check_node_cycle_covering self g = (initialCycledNodesSet self - get_cycled_nodes self g = {})"

definition check_edge_cycle_covering :: "map_generator \<Rightarrow> graph \<Rightarrow> bool" where
  "check_edge_cycle_covering self g = (initialCycledEdgesSet self - get_cycled_edges self g = {})"

definition check_constraints :: "map_generator \<Rightarrow> graph \<Rightarrow> bool" where
  "check_constraints self g =
     (if check_node_cycle_covering self g then check_edge_cycle_covering self g else False)"

definition has_found_path_nodes :: "map_generator \<Rightarrow> graph \<Rightarrow> bool" where
  \<comment> \<open>\<^verbatim>\<open>all([node in subgraph.nodes for node in self.found_path])\<close>\<close>
  "has_found_path_nodes self g = list_all (has_node g) (found_path self)"

definition get_main_subgraph :: "map_generator \<Rightarrow> graph \<Rightarrow> error + graph" where
  "get_main_subgraph self g =
     (let sub = (case find (\<lambda>nodes. list_all (\<lambda>node. node \<in> set nodes) (found_path self))
                        (connected_components g) of
                   None \<Rightarrow> subgraph g []
                 | Some nodes \<Rightarrow> subgraph g nodes)
      in if \<not> has_found_path_nodes self sub then Inl InvalidMainSubgraph else Inr sub)"

definition get_reachable_subgraph :: "map_generator \<Rightarrow> graph \<Rightarrow> error + graph" where
  "get_reachable_subgraph self g =
     (case all_simple_paths g (source_node_index self) (target_node_index self)
             (maxPathLength self) of
        Inl e \<Rightarrow> Inl e
      | Inr paths \<Rightarrow>
          (let sub = subgraph g (found_path self @ concat paths)
           in if \<not> has_found_path_nodes self sub then Inl InvalidReachableSubgraph else Inr sub))"

definition get_cycle_subgraph :: "map_generator \<Rightarrow> graph \<Rightarrow> error + graph" where
  "get_cycle_subgraph self g =
     (let sub = subgraph g
                  (found_path self @
                   concat (filter (\<lambda>path. list_ex (\<lambda>node. node \<in> set (found_path self)) path)
                             (simple_cycles g (cycleLength self))))
      in if \<not> has_found_path_nodes self sub then Inl InvalidCycleSubgraph else Inr sub)"

definition reduce_graph :: "map_generator \<Rightarrow> graph \<Rightarrow> error + graph" where
  \<comment> \<open>the three reductions in a row, as in lines 246 to 248 and 304 to 306\<close>
  "reduce_graph self g =
     (case get_reachable_subgraph self g of
        Inl e \<Rightarrow> Inl e
      | Inr g1 \<Rightarrow> (case get_cycle_subgraph self g1 of
                    Inl e \<Rightarrow> Inl e
                  | Inr g2 \<Rightarrow> get_main_subgraph self g2))"

subsection \<open>The chunked pruner\<close>

definition set_found_path_attr :: "bool \<Rightarrow> edge_attrs \<Rightarrow> edge_attrs" where
  "set_found_path_attr b d = d\<lparr>found_path_attr := Some b\<rparr>"

fun mark_found_path :: "graph \<Rightarrow> (nat \<times> nat) list \<Rightarrow> error + graph" where
  \<comment> \<open>\<^verbatim>\<open>graph[u][v]['found_path']=True\<close> along the found path; a missing edge is a KeyError\<close>
  "mark_found_path g [] = Inr g"
| "mark_found_path g ((u, v) # ls) =
     (case get_edge_data g u v of
        None \<Rightarrow> Inl KeyError
      | Some d \<Rightarrow>
          mark_found_path
            (g\<lparr>edge_list := AList.update (edge_key u v) (set_found_path_attr True d) (edge_list g)\<rparr>)
            ls)"

definition generate_initial_graph :: "map_generator \<Rightarrow> error + graph" where
  "generate_initial_graph self =
     (case make_graph self None of
        Inl e \<Rightarrow> Inl e
      | Inr g \<Rightarrow>
          mark_found_path
            (g\<lparr>edge_list := map (\<lambda>(k, d). (k, set_found_path_attr False d)) (edge_list g)\<rparr>)
            (path_links (found_path self)))"

definition removable :: "edge_attrs \<Rightarrow> error + bool" where
  \<comment> \<open>\<^verbatim>\<open>d['score'] < 1.0 and not d['found_path']\<close>\<close>
  "removable d =
     (if score d < 1
      then (case found_path_attr d of None \<Rightarrow> Inl KeyError | Some b \<Rightarrow> Inr (\<not> b))
      else Inr False)"

fun removables_of :: "edge_attrs list \<Rightarrow> error + bool list" where
  "removables_of [] = Inr []"
| "removables_of (d # ds) =
     (case removable d of
        Inl e \<Rightarrow> Inl e
      | Inr b \<Rightarrow> (case removables_of ds of Inl e \<Rightarrow> Inl e | Inr bs \<Rightarrow> Inr (b # bs)))"

definition restore_edges :: "graph \<Rightarrow> edge list \<Rightarrow> edge_attrs list \<Rightarrow> graph" where
  \<comment> \<open>\<^verbatim>\<open>for (i, j), d in zip(edge_chunk, data_chunk): subgraph.add_edge(i, j, **d)\<close>\<close>
  "restore_edges g es ds = fold (\<lambda>((i, j), d) h. add_edge h i j d) (zip es ds) g"

text \<open>
  \<^verbatim>\<open>check_chunk\<close> removes the chunk from the graph object that \<^verbatim>\<open>self.tmp_subgraph\<close>
  names and, when it accepts, binds \<^verbatim>\<open>self.tmp_subgraph\<close> to a new object. A caller
  that still holds the old object (\<^verbatim>\<open>chunk_process\<close> does, in its local \<^verbatim>\<open>subgraph\<close>)
  then reads a graph that is no longer the current one. The third component of the
  result records this: \<open>None\<close> while the object current at the call is still current,
  \<open>Some g\<close> with the last content \<open>g\<close> of that object once it has been replaced.
\<close>

type_synonym step = "error + (bool \<times> map_generator \<times> graph option)"

definition check_chunk :: "map_generator \<Rightarrow> edge list \<Rightarrow> edge_attrs list \<Rightarrow> step" where
  "check_chunk self edge_chunk data_chunk =
     (case removables_of data_chunk of
        Inl e \<Rightarrow> Inl e
      | Inr removables \<Rightarrow>
          if \<not> list_all id removables then
            (if \<not> list_ex id removables then Inr (True, self, None)
             else Inr (False, self, None))
          else
            (let sub = remove_edges_from (tmp_subgraph self) edge_chunk
             in case reduce_graph self sub of
                  Inl e \<Rightarrow> Inl e
                | Inr exgraph \<Rightarrow>
                    if \<not> has_found_path_nodes self exgraph
                    then Inr (False,
                              self\<lparr>tmp_subgraph := restore_edges sub edge_chunk data_chunk\<rparr>, None)
                    else if \<not> check_constraints self exgraph
                    then Inr (False,
                              self\<lparr>tmp_subgraph := restore_edges sub edge_chunk data_chunk\<rparr>, None)
                    else Inr (True, self\<lparr>tmp_subgraph := exgraph\<rparr>, Some sub)))"

definition local_graph :: "map_generator \<Rightarrow> graph option \<Rightarrow> graph" where
  \<comment> \<open>what a local variable bound to the once current graph object reads\<close>
  "local_graph self st = (case st of None \<Rightarrow> tmp_subgraph self | Some g \<Rightarrow> g)"

definition join_stale :: "graph option \<Rightarrow> graph option \<Rightarrow> graph option" where
  "join_stale st st1 = (case st of None \<Rightarrow> st1 | Some g \<Rightarrow> Some g)"

fun collect ::
  "graph \<Rightarrow> nat \<Rightarrow> edge list \<Rightarrow> edge_attrs list \<Rightarrow> edge list \<Rightarrow> edge_attrs list \<Rightarrow>
   error + (edge list \<times> edge_attrs list \<times> edge list \<times> edge_attrs list)" where
  \<comment> \<open>the inner while loop of lines 215 to 220 and 320 to 326: the chunk gathered so far,
      then the edges and data from the cursor on; the result also returns what is left\<close>
  "collect g chunk_size ein din [] ds = Inr (ein, din, [], ds)"
| "collect g chunk_size ein din ((u, v) # es) ds =
     (if length ein < chunk_size then
        (if get_edge_data g u v \<noteq> None then
           (case ds of
              [] \<Rightarrow> Inl IndexError
            | d # ds' \<Rightarrow> collect g chunk_size (ein @ [(u, v)]) (din @ [d]) es ds')
         else collect g chunk_size ein din es (tl ds))
      else Inr (ein, din, (u, v) # es, ds))"

definition split_size :: "nat \<Rightarrow> nat \<Rightarrow> nat" where
  \<comment> \<open>\<^verbatim>\<open>max(chunk_size // self.chunkScale, 1)\<close>\<close>
  "split_size chunk_size scale = max (chunk_size div scale) 1"

definition live_edges :: "graph \<Rightarrow> edge list \<Rightarrow> edge list" where
  "live_edges g es = filter (\<lambda>(u, v). get_edge_data g u v \<noteq> None) es"

definition live_data :: "graph \<Rightarrow> edge list \<Rightarrow> edge_attrs list \<Rightarrow> edge_attrs list" where
  "live_data g es ds = map snd (filter (\<lambda>((u, v), d). get_edge_data g u v \<noteq> None) (zip es ds))"

lemma collect_rest_le:
  "collect g n ein din es ds = Inr (a, b, es', ds') \<Longrightarrow> length es' \<le> length es"
  by (induction g n ein din es ds rule: collect.induct)
     (auto split: if_splits list.splits)

lemma collect_rest_less:
  assumes "collect g n ein din es ds = Inr (a, b, es', ds')" and "es \<noteq> []" and "length ein < n"
  shows "length es' < length es"
proof (cases es)
  case Nil
  with assms(2) show ?thesis by simp
next
  case (Cons e rest)
  obtain u v where e: "e = (u, v)" by (cases e)
  show ?thesis
  proof (cases "get_edge_data g u v = None")
    case True
    with assms(1,3) Cons e have "collect g n ein din rest (tl ds) = Inr (a, b, es', ds')"
      by simp
    from collect_rest_le[OF this] Cons show ?thesis by simp
  next
    case False
    with assms(1,3) Cons e obtain d ds2 where
      "collect g n (ein @ [(u, v)]) (din @ [d]) rest ds2 = Inr (a, b, es', ds')"
      by (auto split: list.splits)
    from collect_rest_le[OF this] Cons show ?thesis by simp
  qed
qed

function chunk_process :: "nat \<Rightarrow> map_generator \<Rightarrow> edge list \<Rightarrow> edge_attrs list \<Rightarrow> nat \<Rightarrow> step"
  and split_loop ::
    "nat \<Rightarrow> map_generator \<Rightarrow> graph option \<Rightarrow> nat \<Rightarrow> edge list \<Rightarrow> edge_attrs list \<Rightarrow> step"
  where
  \<comment> \<open>the first argument bounds the depth of the recursion, as the interpreter does;
      the argument \<^verbatim>\<open>idx\<close> of the source is only printed and is left out\<close>
  "chunk_process 0 self edge_chunk data_chunk chunk_size = Inl RecursionError"
| "chunk_process (Suc depth) self edge_chunk data_chunk chunk_size =
     (case check_chunk self edge_chunk data_chunk of
        Inl e \<Rightarrow> Inl e
      | Inr (ok, self1, st) \<Rightarrow>
          if ok then Inr (True, self1, st)
          else if chunk_size = 1 then Inr (False, self1, st)
          else if chunkScale self1 = 0 then Inl ZeroDivisionError
          else split_loop depth self1 st chunk_size edge_chunk data_chunk)"
| "split_loop depth self st chunk_size es ds =
     (if es = [] then Inr (True, self, st)
      else
        (case collect (local_graph self st) (split_size chunk_size (chunkScale self)) [] [] es ds of
           Inl e \<Rightarrow> Inl e
         | Inr (edge_chunk_in, data_chunk_in, es', ds') \<Rightarrow>
             (case chunk_process depth self edge_chunk_in data_chunk_in
                     (split_size chunk_size (chunkScale self)) of
                Inl e \<Rightarrow> Inl e
              | Inr (ret, self1, st1) \<Rightarrow>
                  if ret then split_loop depth self1 (join_stale st st1) chunk_size es' ds'
                  else
                    (case check_chunk self1
                            (live_edges (local_graph self1 (join_stale st st1)) es')
                            (live_data (local_graph self1 (join_stale st st1)) es' ds') of
                       Inl e \<Rightarrow> Inl e
                     | Inr (ok, self2, st2) \<Rightarrow>
                         if ok then Inr (True, self2, join_stale (join_stale st st1) st2)
                         else split_loop depth self2 (join_stale (join_stale st st1) st2)
                                chunk_size es' ds'))))"
  by pat_completeness auto
termination
  by (relation "inv_image (less_than <*lex*> less_than <*lex*> less_than)
        (\<lambda>x. case x of Inl (depth, self, es, ds, cs) \<Rightarrow> (depth, 0, 0)
                      | Inr (depth, self, st, cs, es, ds) \<Rightarrow> (depth, 1, length es))")
     (auto simp: split_size_def dest!: collect_rest_less)

declare split_loop.simps [simp del]

subsection \<open>\<^verbatim>\<open>build_map\<close>\<close>

definition score_list :: "graph \<Rightarrow> (nat \<times> nat \<times> rat) list" where
  \<comment> \<open>\<^verbatim>\<open>list(graph.edges(data='score'))\<close> sorted by the score; Python's sort is stable, and
      so is \<open>sort_key\<close>\<close>
  "score_list g = sort_key (\<lambda>(i, j, s). s) (map (\<lambda>(i, j, d). (i, j, score d)) (edges_view g))"

fun edge_data_list :: "graph \<Rightarrow> (nat \<times> nat \<times> rat) list \<Rightarrow> error + edge_attrs list" where
  \<comment> \<open>\<^verbatim>\<open>[subgraph[i][j] for i, j, d in self.scoresList]\<close>\<close>
  "edge_data_list g [] = Inr []"
| "edge_data_list g ((i, j, s) # rest) =
     (case get_edge_data g i j of
        None \<Rightarrow> Inl KeyError
      | Some d \<Rightarrow> (case edge_data_list g rest of Inl e \<Rightarrow> Inl e | Inr ds \<Rightarrow> Inr (d # ds)))"

definition init_chunk_size :: "(nat \<Rightarrow> nat \<Rightarrow> nat) \<Rightarrow> nat \<Rightarrow> nat \<Rightarrow> error + nat" where
  \<comment> \<open>\<^verbatim>\<open>self.chunkScale ** int(np.log(n) / np.log(self.chunkScale))\<close>. The quotient of
      the two floating-point logarithms, truncated, is the parameter \<open>ilog n scale\<close> for
      \<open>n \<ge> 1\<close> and \<open>scale \<ge> 2\<close>; elsewhere a logarithm is zero or infinite, and \<^verbatim>\<open>int\<close>
      raises on an infinity or a NaN and maps \<^verbatim>\<open>-0.0\<close> to \<open>0\<close>.\<close>
  "init_chunk_size ilog scale n =
     (if scale = 0 then (if n = 0 then Inl ValueError else Inr 1)
      else if scale = 1 then (if n = 1 then Inl ValueError else Inl OverflowError)
      else if n = 0 then Inl OverflowError
      else Inr (scale ^ ilog n scale))"

function main_loop ::
  "nat \<Rightarrow> map_generator \<Rightarrow> nat \<Rightarrow> edge list \<Rightarrow> edge_attrs list \<Rightarrow> error + map_generator" where
  \<comment> \<open>lines 316 to 327. \<^verbatim>\<open>edges\<close> and \<^verbatim>\<open>data\<close> have the length of \<^verbatim>\<open>self.scoresList\<close>, so
      the cursor reaches both ends together. With a chunk size of zero the loop of the
      source would never advance; \<open>init_chunk_size\<close> never returns zero.\<close>
  "main_loop limit self chunk_size es ds =
     (if es = [] then Inr self
      else if chunk_size = 0 then Inl RecursionError
      else
        (case collect (tmp_subgraph self) chunk_size [] [] es ds of
           Inl e \<Rightarrow> Inl e
         | Inr (edge_chunk, data_chunk, es', ds') \<Rightarrow>
             (case chunk_process limit self edge_chunk data_chunk chunk_size of
                Inl e \<Rightarrow> Inl e
              | Inr (ret, self1, st) \<Rightarrow> main_loop limit self1 chunk_size es' ds')))"
  by pat_completeness auto
termination
  by (relation "measure (\<lambda>(limit, self, chunk_size, es, ds). length es)")
     (auto dest!: collect_rest_less)

declare main_loop.simps [simp del]

fun final_sweep :: "map_generator \<Rightarrow> graph \<Rightarrow> (nat \<times> nat \<times> rat) list \<Rightarrow> error + graph" where
  \<comment> \<open>lines 334 to 341\<close>
  "final_sweep self g [] = Inr g"
| "final_sweep self g ((u, v, s) # rest) =
     (case get_edge_data g u v of
        None \<Rightarrow> final_sweep self g rest
      | Some edge_data \<Rightarrow>
          (case found_path_attr edge_data of
             None \<Rightarrow> Inl KeyError
           | Some True \<Rightarrow> final_sweep self g rest
           | Some False \<Rightarrow>
               (case remove_edge g u v of
                  Inl e \<Rightarrow> Inl e
                | Inr g' \<Rightarrow>
                    if check_constraints self g' then final_sweep self g' rest
                    else final_sweep self (add_edge g' u v edge_data) rest)))"

definition get_score_matrix :: "(string option list \<Rightarrow> nat \<Rightarrow> matrix) \<Rightarrow> map_generator \<Rightarrow> map_generator" where
  \<comment> \<open>the scoring of \<^verbatim>\<open>pairmap/utils/mcs\<close> is an external collaborator: the parameter \<open>ext\<close>\<close>
  "get_score_matrix ext self =
     (case score_matrix self of
        None \<Rightarrow> self\<lparr>score_matrix := Some (ext (intermediate_list self) (jobs self))\<rparr>
      | Some m \<Rightarrow> self)"

definition prune_setup ::
  "(nat \<Rightarrow> nat \<Rightarrow> nat) \<Rightarrow> map_generator \<Rightarrow>
   error + (map_generator \<times> edge list \<times> edge_attrs list \<times> nat)" where
  \<comment> \<open>lines 292 to 315: the state with the snapshots and the reduced graph, the lists
      \<^verbatim>\<open>edges\<close> and \<^verbatim>\<open>data\<close>, and the chunk size\<close>
  "prune_setup ilog self =
     (case generate_initial_graph self of
        Inl e \<Rightarrow> Inl e
      | Inr subgraph0 \<Rightarrow>
          (let self1 = self\<lparr>scoresList := score_list subgraph0\<rparr>;
               edges = map (\<lambda>(i, j, d). (i, j)) (scoresList self1)
           in case edge_data_list subgraph0 (scoresList self1) of
                Inl e \<Rightarrow> Inl e
              | Inr data \<Rightarrow>
                  (case init_chunk_size ilog (chunkScale self1) (length (scoresList self1)) of
                     Inl e \<Rightarrow> Inl e
                   | Inr chunk_size \<Rightarrow>
                       (let self2 = self1\<lparr>initialCycledNodesSet := get_cycled_nodes self1 subgraph0\<rparr>;
                            self3 = self2\<lparr>initialCycledEdgesSet := get_cycled_edges self2 subgraph0\<rparr>
                        in case reduce_graph self3 subgraph0 of
                             Inl e \<Rightarrow> Inl e
                           | Inr exgraph \<Rightarrow>
                               if \<not> has_found_path_nodes self3 exgraph then Inl InvalidInitialGraph
                               else Inr (self3\<lparr>tmp_subgraph := exgraph\<rparr>, edges, data, chunk_size)))))"

definition prune_finish :: "map_generator \<Rightarrow> error + (graph \<times> map_generator)" where
  \<comment> \<open>lines 331 to 349: the single-edge sweep and the last main subgraph\<close>
  "prune_finish self =
     (let tmp_graph = tmp_subgraph self;
          self1 = self\<lparr>scoresList := score_list tmp_graph\<rparr>
      in case final_sweep self1 tmp_graph (scoresList self1) of
           Inl e \<Rightarrow> Inl e
         | Inr g \<Rightarrow>
             (case get_main_subgraph self1 g of
                Inl e \<Rightarrow> Inl e
              | Inr fg \<Rightarrow> Inr (fg, self1\<lparr>final_graph := fg\<rparr>)))"

definition build_map ::
  "(string option list \<Rightarrow> nat \<Rightarrow> matrix) \<Rightarrow> (nat \<Rightarrow> nat \<Rightarrow> nat) \<Rightarrow> nat \<Rightarrow> map_generator \<Rightarrow>
   error + (graph \<times> map_generator)" where
  \<comment> \<open>\<open>ext\<close> is the external scoring, \<open>ilog\<close> the truncated quotient of logarithms,
      \<open>limit\<close> the recursion depth the interpreter allows\<close>
  "build_map ext ilog limit self =
     (case find_optimal_path (get_score_matrix ext self) of
        Inl e \<Rightarrow> Inl e
      | Inr (fp, self1) \<Rightarrow>
          (case make_optimal_path_graph self1 of
             Inl e \<Rightarrow> Inl e
           | Inr opg \<Rightarrow>
               (let self2 = self1\<lparr>optimal_path_graph := opg\<rparr>
                in if optimal_path_mode self2 then Inr (opg, self2\<lparr>final_graph := opg\<rparr>)
                   else
                     (case prune_setup ilog self2 of
                        Inl e \<Rightarrow> Inl e
                      | Inr (self3, edges, data, chunk_size) \<Rightarrow>
                          (case main_loop limit self3 chunk_size edges data of
                             Inl e \<Rightarrow> Inl e
                           | Inr self4 \<Rightarrow> prune_finish self4)))))"

subsection \<open>Notions used in the statements\<close>

definition square :: "matrix \<Rightarrow> nat \<Rightarrow> bool" where
  \<comment> \<open>\<open>n\<close> rows, each of length \<open>n\<close>\<close>
  "square m n = (length m = n \<and> list_all (\<lambda>r. length r = n) m)"




definition unnamed :: "nat \<Rightarrow> string option list" where
  \<comment> \<open>\<open>n\<close> intermediates without a name\<close>
  "unnamed n = replicate n None"

definition generator_of :: "params \<Rightarrow> matrix \<Rightarrow> map_generator" where
  \<comment> \<open>the object the constructor returns for a custom matrix it accepts\<close>
  "generator_of p m = (case MapGenerator_init p (Some m) of Inr self \<Rightarrow> self)"

definition frame :: "map_generator \<Rightarrow> map_generator \<Rightarrow> bool" where
  \<comment> \<open>the second state is the first but for the current subgraph\<close>
  "frame self self' = (\<exists>g. self' = self\<lparr>tmp_subgraph := g\<rparr>)"

definition flagged_edge :: "graph \<Rightarrow> nat \<times> nat \<Rightarrow> bool" where
  "flagged_edge g l =
     (case l of (u, v) \<Rightarrow>
        (case get_edge_data g u v of None \<Rightarrow> False | Some d \<Rightarrow> found_path_attr d = Some True))"

definition found_edges_flagged :: "map_generator \<Rightarrow> graph \<Rightarrow> bool" where
  "found_edges_flagged self g = list_all (flagged_edge g) (path_links (found_path self))"

definition link_key :: "nat \<times> nat \<Rightarrow> edge" where
  "link_key l = (case l of (u, v) \<Rightarrow> edge_key u v)"

definition found_keys :: "map_generator \<Rightarrow> edge set" where
  "found_keys self = set (map link_key (path_links (found_path self)))"

definition chunk_ok :: "map_generator \<Rightarrow> edge list \<Rightarrow> edge_attrs list \<Rightarrow> bool" where
  "chunk_ok self es ds =
     (length es = length ds \<and>
      list_all (\<lambda>(e, d). link_key e \<in> found_keys self \<longrightarrow> found_path_attr d = Some True)
        (zip es ds))"



fun read_scores :: "matrix option \<Rightarrow> (nat \<times> nat) list \<Rightarrow> error + ((nat \<times> nat) \<times> rat) list" where
  "read_scores mo [] = Inr []"
| "read_scores mo ((u, v) # ps) =
     (case matrix_get mo u v of
        Inl e \<Rightarrow> Inl e
      | Inr s \<Rightarrow> (case read_scores mo ps of Inl e \<Rightarrow> Inl e | Inr xs \<Rightarrow> Inr (((u, v), s) # xs)))"

definition add_scored :: "rat \<Rightarrow> (nat \<times> nat) \<times> rat \<Rightarrow> graph \<Rightarrow> graph" where
  "add_scored t x g =
     (case x of ((u, v), s) \<Rightarrow>
        if np_round2 s \<ge> t then add_edge g u v \<lparr>score = np_round2 s, found_path_attr = None\<rparr> else g)"

definition touch :: "nat \<Rightarrow> (nat \<rightharpoonup> string option) \<Rightarrow> (nat \<rightharpoonup> string option)" where
  "touch n m = (if m n = None then m(n \<mapsto> None) else m)"

definition scored_nodes :: "rat \<Rightarrow> ((nat \<times> nat) \<times> rat) list \<Rightarrow> nat set" where
  "scored_nodes t xs = (\<Union>((u, v), s) \<in> set xs. if np_round2 s \<ge> t then {u, v} else {})"

definition scored_update ::
  "rat \<Rightarrow> (nat \<times> nat) \<times> rat \<Rightarrow> (edge \<rightharpoonup> edge_attrs) \<Rightarrow> (edge \<rightharpoonup> edge_attrs)" where
  "scored_update t x m =
     (case x of ((u, v), s) \<Rightarrow>
        if np_round2 s \<ge> t then m(edge_key u v \<mapsto> \<lparr>score = np_round2 s, found_path_attr = None\<rparr>)
        else m)"

definition unflagged :: "graph \<Rightarrow> bool" where
  "unflagged g = (\<forall>k d. map_of (edge_list g) k = Some d \<longrightarrow> found_path_attr d = None)"

definition scored_step ::
  "rat \<Rightarrow> ((nat \<times> nat) \<times> rat) list \<Rightarrow> nat \<times> string \<Rightarrow> graph \<Rightarrow> graph" where
  "scored_step t xs x g =
     (case x of (i, name) \<Rightarrow> fold (add_scored t) xs (set_label (add_node g i) i name))"

definition label_step :: "nat \<times> string \<Rightarrow> graph \<Rightarrow> graph" where
  "label_step x g = (case x of (i, name) \<Rightarrow> set_label (add_node g i) i name)"

fun walk :: "graph \<Rightarrow> nat \<Rightarrow> nat list \<Rightarrow> bool" where
  "walk g cur [] = True"
| "walk g cur (c # q) = (c \<in> set (neighbors g cur) \<and> walk g c q)"

definition simple_path :: "graph \<Rightarrow> nat \<Rightarrow> nat \<Rightarrow> nat list \<Rightarrow> bool" where
  "simple_path g s t p =
     (has_node g s \<and> has_node g t \<and> p \<noteq> [] \<and> hd p = s \<and> last p = t \<and> distinct p \<and>
      walk g (hd p) (tl p))"



definition keys_normal :: "graph \<Rightarrow> bool" where
  "keys_normal g = list_all (\<lambda>(k, d). fst k \<le> snd k) (edge_list g)"

subsection \<open>Concrete inputs\<close>

definition no_scoring :: "string option list \<Rightarrow> nat \<Rightarrow> matrix" where
  \<comment> \<open>the external scoring is not called when a custom matrix is given\<close>
  "no_scoring il j = []"

definition raw_pair :: matrix where
  "raw_pair = [[1, 219/250], [219/250, 1]]"

definition two_triangles :: matrix where
  \<comment> \<open>the triangles 0-1-2 and 0-1-3 over the edge 0-1; all other edges of score 1\<close>
  "two_triangles =
     [[1, 9/10, 1, 1],
      [9/10, 1, 1, 1],
      [1, 1, 1, 1/10],
      [1, 1, 1/10, 1]]"

definition hanging_triangle :: matrix where
  \<comment> \<open>the path 0-2-1 and the triangle 2-3-4 hanging off node 2\<close>
  "hanging_triangle =
     [[1, 1/10, 9/10, 1/10, 1/10],
      [1/10, 1, 9/10, 1/10, 1/10],
      [9/10, 9/10, 1, 9/10, 9/10],
      [1/10, 1/10, 9/10, 1, 9/10],
      [1/10, 1/10, 9/10, 9/10, 1]]"

definition four_clique :: matrix where
  "four_clique =
     [[1, 9/10, 33/100, 3/10],
      [9/10, 1, 1/2, 31/100],
      [33/100, 1/2, 1, 32/100],
      [3/10, 31/100, 32/100, 1]]"

definition four_clique_params :: params where
  "four_clique_params = (default_params (unnamed 4))\<lparr>chunkScale := 2\<rparr>"

definition detour :: matrix where
  \<comment> \<open>the triangles 0-1-5 and 1-2-4, and the path 0-3-2 into the second\<close>
  "detour =
     [[1, 9/10, 0, 1/2, 0, 1/2],
      [9/10, 1, 1/2, 0, 1/2, 1/2],
      [0, 1/2, 1, 1/2, 1/2, 0],
      [1/2, 0, 1/2, 1, 0, 0],
      [0, 1/2, 1/2, 0, 1, 0],
      [1/2, 1/2, 0, 0, 0, 1]]"


definition all_weak :: matrix where
  "all_weak =
     [[1, 1/10, 1/10],
      [1/10, 1, 1/10],
      [1/10, 1/10, 1]]"

section \<open>Properties\<close>

subsection \<open>Frames and invariants of the pruner\<close>

lemma frame_refl: "frame s s" unfolding frame_def by (rule exI[of _ "tmp_subgraph s"]) simp
lemma frame_upd: "frame s (s\<lparr>tmp_subgraph := g\<rparr>)" by (auto simp: frame_def)
lemma frame_trans: "frame a b \<Longrightarrow> frame b c \<Longrightarrow> frame a c"
  by (auto simp: frame_def)

lemma check_chunk_frame: "check_chunk self es ds = Inr (ok, self', st) \<Longrightarrow> frame self self'"
  by (auto simp: check_chunk_def Let_def frame_refl frame_upd split: sum.splits if_splits)

lemma chunk_process_invariant:
  fixes I :: "map_generator \<Rightarrow> bool" and C :: "edge list \<Rightarrow> edge_attrs list \<Rightarrow> bool"
  assumes step: "\<And>s es ds ok s' st. I s \<Longrightarrow> C es ds \<Longrightarrow> check_chunk s es ds = Inr (ok, s', st) \<Longrightarrow> I s'"
    and sub: "\<And>g n es ds a b es' ds'. C es ds \<Longrightarrow> collect g n [] [] es ds = Inr (a, b, es', ds') \<Longrightarrow> C a b \<and> C es' ds'"
    and live: "\<And>g es ds. C es ds \<Longrightarrow> C (live_edges g es) (live_data g es ds)"
  shows "chunk_process d self es ds cs = Inr (ok, self', st') \<Longrightarrow> I self \<Longrightarrow> C es ds \<Longrightarrow> I self'"
    and "split_loop d self st cs es ds = Inr (ok, self', st') \<Longrightarrow> I self \<Longrightarrow> C es ds \<Longrightarrow> I self'"
proof (induction d self es ds cs and d self st cs es ds arbitrary: ok self' st' and ok self' st'
    rule: chunk_process_split_loop.induct)
  case (1 self edge_chunk data_chunk chunk_size)
  then show ?case by simp
next
  case (2 depth self edge_chunk data_chunk chunk_size)
  from "2.prems"(1) obtain ok1 self1 st1 where
    k: "check_chunk self edge_chunk data_chunk = Inr (ok1, self1, st1)"
    by (auto split: sum.splits)
  have i1: "I self1" by (rule step[OF "2.prems"(2,3) k])
  show ?case
  proof (cases "ok1 \<or> chunk_size = 1")
    case True
    with "2.prems"(1) k have "self' = self1" by (auto split: if_splits)
    with i1 show ?thesis by simp
  next
    case False
    with "2.prems"(1) k have nz: "chunkScale self1 \<noteq> 0"
      and sl: "split_loop depth self1 st1 chunk_size edge_chunk data_chunk = Inr (ok, self', st')"
      by (auto split: if_splits)
    from False have a: "\<not> ok1" and b: "chunk_size \<noteq> 1" by auto
    show ?thesis by (rule "2.IH"[OF k refl refl a b nz sl i1 "2.prems"(3)])
  qed
next
  case (3 depth self st chunk_size es ds)
  note prems = "3.prems"(1)[unfolded split_loop.simps[of depth self st chunk_size es ds]]
  show ?case
  proof (cases "es = []")
    case True
    with prems "3.prems"(2) show ?thesis by simp
  next
    case False
    from prems False obtain ein din es2 ds2 where
      c: "collect (local_graph self st) (split_size chunk_size (chunkScale self)) [] [] es ds
            = Inr (ein, din, es2, ds2)"
      by (auto split: sum.splits)
    from sub[OF "3.prems"(3) c] have cin: "C ein din" and crest: "C es2 ds2" by auto
    from prems False c obtain ret self1 st1 where
      p: "chunk_process depth self ein din (split_size chunk_size (chunkScale self))
            = Inr (ret, self1, st1)"
      by (auto split: sum.splits)
    have i1: "I self1" by (rule "3.IH"(1)[OF False c refl refl refl p "3.prems"(2) cin])
    show ?thesis
    proof (cases ret)
      case True
      with prems False c p have
        "split_loop depth self1 (join_stale st st1) chunk_size es2 ds2 = Inr (ok, self', st')"
        by simp
      from "3.IH"(2)[OF False c refl refl refl p refl refl True this i1 crest] show ?thesis .
    next
      case nret: False
      from prems False c p nret obtain ok2 self2 st2 where
        k: "check_chunk self1 (live_edges (local_graph self1 (join_stale st st1)) es2)
               (live_data (local_graph self1 (join_stale st st1)) es2 ds2) = Inr (ok2, self2, st2)"
        by (auto split: sum.splits)
      have i2: "I self2" by (rule step[OF i1 live[OF crest] k])
      show ?thesis
      proof (cases ok2)
        case True
        with prems False c p nret k have "self' = self2" by simp
        with i2 show ?thesis by simp
      next
        case nok: False
        with prems False c p nret k have
          "split_loop depth self2 (join_stale (join_stale st st1) st2) chunk_size es2 ds2
             = Inr (ok, self', st')"
          by simp
        from "3.IH"(3)[OF False c refl refl refl p refl refl nret k refl refl nok this i2 crest]
        show ?thesis .
      qed
    qed
  qed
qed

lemma main_loop_invariant:
  fixes I :: "map_generator \<Rightarrow> bool" and C :: "edge list \<Rightarrow> edge_attrs list \<Rightarrow> bool"
  assumes step: "\<And>s es ds ok s' st. I s \<Longrightarrow> C es ds \<Longrightarrow> check_chunk s es ds = Inr (ok, s', st) \<Longrightarrow> I s'"
    and sub: "\<And>g n es ds a b es' ds'. C es ds \<Longrightarrow> collect g n [] [] es ds = Inr (a, b, es', ds') \<Longrightarrow> C a b \<and> C es' ds'"
    and live: "\<And>g es ds. C es ds \<Longrightarrow> C (live_edges g es) (live_data g es ds)"
  shows "main_loop limit self cs es ds = Inr self' \<Longrightarrow> I self \<Longrightarrow> C es ds \<Longrightarrow> I self'"
proof (induction limit self cs es ds arbitrary: self' rule: main_loop.induct)
  case (1 limit self chunk_size es ds)
  note prems = "1.prems"(1)[unfolded main_loop.simps[of limit self chunk_size es ds]]
  show ?case
  proof (cases "es = [] \<or> chunk_size = 0")
    case True
    with prems "1.prems"(2) show ?thesis by (auto split: if_splits)
  next
    case False
    then have a: "es \<noteq> []" and b: "chunk_size \<noteq> 0" by auto
    from prems False obtain ein din es2 ds2 where
      c: "collect (tmp_subgraph self) chunk_size [] [] es ds = Inr (ein, din, es2, ds2)"
      by (auto split: sum.splits)
    from sub[OF "1.prems"(3) c] have cin: "C ein din" and crest: "C es2 ds2" by auto
    from prems False c obtain ret self1 st1 where
      p: "chunk_process limit self ein din chunk_size = Inr (ret, self1, st1)"
      by (auto split: sum.splits)
    from prems False c p have m: "main_loop limit self1 chunk_size es2 ds2 = Inr self'"
      by simp
    have i1: "I self1"
      by (rule chunk_process_invariant(1)[where I = I and C = C, OF step sub live p "1.prems"(2) cin])
    show ?thesis by (rule "1.IH"[OF a b c refl refl refl p refl refl m i1 crest])
  qed
qed

lemma main_loop_frame:
  assumes "main_loop limit self cs es ds = Inr self'"
  shows "frame self self'"
proof (rule main_loop_invariant[where I = "frame self" and C = "\<lambda>es ds. True", OF _ _ _ assms])
  show "frame self self" by (rule frame_refl)
qed (auto intro: frame_trans dest: check_chunk_frame)

lemma remove_edges_from_Nil: "remove_edges_from g [] = g"
  by (simp add: remove_edges_from_def)

lemma restore_edges_Nil: "restore_edges g [] ds = g"
  by (simp add: restore_edges_def)

lemma main_subgraph_nodes: "get_main_subgraph self g = Inr ex \<Longrightarrow> has_found_path_nodes self ex"
  by (auto simp: get_main_subgraph_def Let_def split: if_splits)

lemma reduce_graph_nodes: "reduce_graph self g = Inr ex \<Longrightarrow> has_found_path_nodes self ex"
  by (auto simp: reduce_graph_def split: sum.splits dest: main_subgraph_nodes)

subsection \<open>The phases of \<^verbatim>\<open>build_map\<close>\<close>

lemma make_graph_loop_cong:
  "score_matrix a = score_matrix b \<Longrightarrow> N a = N b \<Longrightarrow>
   make_graph_loop a t g xs = make_graph_loop b t g xs"
  by (induction xs arbitrary: g) (auto split: sum.splits)

lemma make_graph_cong:
  "score_matrix a = score_matrix b \<Longrightarrow> N a = N b \<Longrightarrow>
   intermediate_names a = intermediate_names b \<Longrightarrow> minScoreThreshold a = minScoreThreshold b \<Longrightarrow>
   make_graph a t = make_graph b t"
  by (simp add: make_graph_def enumerate_names_def make_graph_loop_cong[of a b]
      cong: option.case_cong)

lemma generate_initial_graph_cong:
  "score_matrix a = score_matrix b \<Longrightarrow> N a = N b \<Longrightarrow>
   intermediate_names a = intermediate_names b \<Longrightarrow> minScoreThreshold a = minScoreThreshold b \<Longrightarrow>
   found_path a = found_path b \<Longrightarrow>
   generate_initial_graph a = generate_initial_graph b"
  by (simp add: generate_initial_graph_def make_graph_cong[of a b] cong: sum.case_cong)

lemma get_cycled_nodes_cong:
  "found_path a = found_path b \<Longrightarrow> cycleLength a = cycleLength b \<Longrightarrow>
   get_cycled_nodes a g = get_cycled_nodes b g"
  by (simp add: get_cycled_nodes_def)

lemma get_cycled_edges_cong:
  "found_links a = found_links b \<Longrightarrow> get_cycled_edges a g = get_cycled_edges b g"
  by (simp add: get_cycled_edges_def)

lemma reduce_graph_cong:
  "found_path a = found_path b \<Longrightarrow> cycleLength a = cycleLength b \<Longrightarrow>
   maxPathLength a = maxPathLength b \<Longrightarrow> source_node_index a = source_node_index b \<Longrightarrow>
   target_node_index a = target_node_index b \<Longrightarrow>
   reduce_graph a g = reduce_graph b g"
  by (simp add: reduce_graph_def get_reachable_subgraph_def get_cycle_subgraph_def
      get_main_subgraph_def has_found_path_nodes_def cong: sum.case_cong)

lemma find_optimal_path_state:
  "find_optimal_path s = Inr (fp, s1) \<Longrightarrow>
   s1 = s\<lparr>found_path := fp, found_links := map ordered_link (path_links fp)\<rparr>"
  by (auto simp: find_optimal_path_def Let_def split: sum.splits if_splits)

lemma build_map_pruned:
  assumes "build_map ext ilog limit self = Inr (g, self')" and "\<not> optimal_path_mode self"
  shows "\<exists>fp s1 opg s3 es ds cs s4.
           find_optimal_path (get_score_matrix ext self) = Inr (fp, s1) \<and>
           make_optimal_path_graph s1 = Inr opg \<and>
           prune_setup ilog (s1\<lparr>optimal_path_graph := opg\<rparr>) = Inr (s3, es, ds, cs) \<and>
           main_loop limit s3 cs es ds = Inr s4 \<and>
           prune_finish s4 = Inr (g, self')"
proof -
  from assms(1) obtain fp s1 where
    f: "find_optimal_path (get_score_matrix ext self) = Inr (fp, s1)"
    by (auto simp: build_map_def split: sum.splits)
  from assms(1) f obtain opg where o: "make_optimal_path_graph s1 = Inr opg"
    by (auto simp: build_map_def split: sum.splits)
  have "optimal_path_mode (get_score_matrix ext self) = optimal_path_mode self"
    by (simp add: get_score_matrix_def split: option.splits)
  with find_optimal_path_state[OF f] assms(2) have m: "\<not> optimal_path_mode s1" by simp
  from assms(1) f o m obtain s3 es ds cs where
    p: "prune_setup ilog (s1\<lparr>optimal_path_graph := opg\<rparr>) = Inr (s3, es, ds, cs)"
    by (auto simp: build_map_def Let_def split: sum.splits)
  from assms(1) f o m p obtain s4 where l: "main_loop limit s3 cs es ds = Inr s4"
    by (auto simp: build_map_def Let_def split: sum.splits)
  from assms(1) f o m p l have "prune_finish s4 = Inr (g, self')"
    by (auto simp: build_map_def Let_def split: sum.splits)
  with f o p l show ?thesis by blast
qed

lemma prune_setup_state:
  assumes "prune_setup ilog s = Inr (s3, es, ds, cs)"
  shows "\<exists>g0 ex. generate_initial_graph s = Inr g0 \<and>
           es = map (\<lambda>(i, j, d). (i, j)) (score_list g0) \<and>
           edge_data_list g0 (score_list g0) = Inr ds \<and>
           reduce_graph s3 g0 = Inr ex \<and>
           s3 = s\<lparr>scoresList := score_list g0,
                  initialCycledNodesSet := get_cycled_nodes s g0,
                  initialCycledEdgesSet := get_cycled_edges s g0,
                  tmp_subgraph := ex\<rparr>"
proof -
  from assms obtain g0 where g: "generate_initial_graph s = Inr g0"
    by (auto simp: prune_setup_def split: sum.splits)
  from assms g obtain data where d: "edge_data_list g0 (score_list g0) = Inr data"
    by (auto simp: prune_setup_def Let_def split: sum.splits)
  from assms g d obtain c where c: "init_chunk_size ilog (chunkScale s) (length (score_list g0)) = Inr c"
    by (auto simp: prune_setup_def Let_def split: sum.splits)
  let ?s3 = "s\<lparr>scoresList := score_list g0,
                  initialCycledNodesSet := get_cycled_nodes s g0,
                  initialCycledEdgesSet := get_cycled_edges s g0\<rparr>"
  have n: "get_cycled_nodes (s\<lparr>scoresList := score_list g0\<rparr>) g0 = get_cycled_nodes s g0"
    by (rule get_cycled_nodes_cong) simp_all
  have e: "get_cycled_edges (s\<lparr>scoresList := score_list g0,
             initialCycledNodesSet := get_cycled_nodes s g0\<rparr>) g0 = get_cycled_edges s g0"
    by (rule get_cycled_edges_cong) simp
  have r: "\<And>x. reduce_graph (?s3\<lparr>tmp_subgraph := x\<rparr>) g0 = reduce_graph ?s3 g0"
    by (rule reduce_graph_cong) simp_all
  from assms g d c n e obtain ex where "reduce_graph ?s3 g0 = Inr ex"
    and "s3 = ?s3\<lparr>tmp_subgraph := ex\<rparr>" and "es = map (\<lambda>(i, j, d). (i, j)) (score_list g0)"
    and "ds = data"
    by (auto simp: prune_setup_def Let_def split: sum.splits if_splits)
  with g d r show ?thesis by auto
qed

lemma prune_finish_state:
  assumes "prune_finish s = Inr (g, s')"
  shows "\<exists>h. final_sweep (s\<lparr>scoresList := score_list (tmp_subgraph s)\<rparr>) (tmp_subgraph s)
                (score_list (tmp_subgraph s)) = Inr h \<and>
             get_main_subgraph (s\<lparr>scoresList := score_list (tmp_subgraph s)\<rparr>) h = Inr g \<and>
             s' = s\<lparr>scoresList := score_list (tmp_subgraph s), final_graph := g\<rparr>"
  using assms by (auto simp: prune_finish_def Let_def split: sum.splits)

subsection \<open>Edge data under subgraphs, removals and insertions\<close>

text \<open>
  What \<^verbatim>\<open>get_edge_data\<close> and \<^verbatim>\<open>has_node\<close> read after each graph operation the pruner
  uses, and the induced-subgraph form of the three reductions.
\<close>

lemma map_of_filter_key:
  "map_of (filter (\<lambda>p. Q (fst p)) xs) k = (if Q k then map_of xs k else None)"
  by (induction xs) auto

lemma get_edge_data_subgraph:
  assumes "u \<in> set ns" and "v \<in> set ns"
  shows "get_edge_data (subgraph g ns) u v = get_edge_data g u v"
proof -
  have "filter (\<lambda>((u, v), d). u \<in> set ns \<and> v \<in> set ns) xs =
        filter (\<lambda>p. fst (fst p) \<in> set ns \<and> snd (fst p) \<in> set ns) xs" for xs :: "(edge \<times> edge_attrs) list"
    by (rule filter_cong) auto
  then have "map_of (edge_list (subgraph g ns)) k =
      (if fst k \<in> set ns \<and> snd k \<in> set ns then map_of (edge_list g) k else None)" for k
    by (simp add: subgraph_def map_of_filter_key[where Q = "\<lambda>k. fst k \<in> set ns \<and> snd k \<in> set ns"])
  with assms show ?thesis by (simp add: get_edge_data_def edge_key_def)
qed

lemma get_edge_data_remove_edges_from:
  "get_edge_data (remove_edges_from g es) u v =
     (if edge_key u v \<in> link_key ` set es then None else get_edge_data g u v)"
proof -
  have "filter (\<lambda>(k, d). k \<notin> set (map (\<lambda>(u, v). edge_key u v) es)) xs =
        filter (\<lambda>p. fst p \<notin> link_key ` set es) xs" for xs :: "(edge \<times> edge_attrs) list"
    by (rule filter_cong) (auto simp: link_key_def image_iff split: prod.splits)
  then show ?thesis
    by (simp add: get_edge_data_def remove_edges_from_def
        map_of_filter_key[where Q = "\<lambda>k. k \<notin> link_key ` set es"])
qed

lemma get_edge_data_add_edge_other:
  "edge_key u v \<noteq> edge_key a b \<Longrightarrow> get_edge_data (add_edge g a b d) u v = get_edge_data g u v"
  by (simp add: get_edge_data_def add_edge_def Let_def add_node_def update_conv')

lemma get_edge_data_restore_other:
  "edge_key u v \<notin> link_key ` set es \<Longrightarrow>
   get_edge_data (restore_edges g es ds) u v = get_edge_data g u v"
proof -
  have "edge_key u v \<notin> link_key ` fst ` set ps \<Longrightarrow>
        get_edge_data (fold (\<lambda>((i, j), d) h. add_edge h i j d) ps g) u v = get_edge_data g u v" for ps
    by (induction ps arbitrary: g) (auto simp: get_edge_data_add_edge_other link_key_def)
  moreover assume "edge_key u v \<notin> link_key ` set es"
  then have "edge_key u v \<notin> link_key ` fst ` set (zip es ds)"
    by (auto dest: set_zip_leftD)
  ultimately show ?thesis by (simp add: restore_edges_def)
qed

lemma get_edge_data_remove_edge_other:
  "remove_edge g a b = Inr g' \<Longrightarrow> edge_key u v \<noteq> edge_key a b \<Longrightarrow>
   get_edge_data g' u v = get_edge_data g u v"
  by (auto simp: remove_edge_def get_edge_data_def delete_conv' split: if_splits)

lemma has_node_subgraph: "has_node (subgraph g ns) n \<Longrightarrow> n \<in> set ns"
  by (auto simp: has_node_def nodes_of_def subgraph_def)

lemma found_nodes_subgraph:
  "has_found_path_nodes self (subgraph g ns) \<Longrightarrow> set (found_path self) \<subseteq> set ns"
  by (auto simp: has_found_path_nodes_def list_all_iff dest: has_node_subgraph)

lemma main_subgraph_form:
  "get_main_subgraph self g = Inr sub \<Longrightarrow>
   \<exists>ns. sub = subgraph g ns \<and> set (found_path self) \<subseteq> set ns"
  by (auto simp: get_main_subgraph_def Let_def split: if_splits option.splits
      dest!: found_nodes_subgraph)

lemma reachable_subgraph_form:
  "get_reachable_subgraph self g = Inr sub \<Longrightarrow>
   \<exists>ns. sub = subgraph g ns \<and> set (found_path self) \<subseteq> set ns"
  by (auto simp: get_reachable_subgraph_def Let_def split: if_splits sum.splits)

lemma cycle_subgraph_form:
  "get_cycle_subgraph self g = Inr sub \<Longrightarrow>
   \<exists>ns. sub = subgraph g ns \<and> set (found_path self) \<subseteq> set ns"
  by (auto simp: get_cycle_subgraph_def Let_def split: if_splits)

lemma path_links_nodes: "(u, v) \<in> set (path_links p) \<Longrightarrow> u \<in> set p \<and> v \<in> set p"
  by (induction p rule: path_links.induct) auto

lemma flagged_edge_cong:
  "get_edge_data h (fst l) (snd l) = get_edge_data g (fst l) (snd l) \<Longrightarrow>
   flagged_edge h l = flagged_edge g l"
  by (cases l) (simp add: flagged_edge_def)

lemma flagged_subgraph:
  assumes "set (found_path self) \<subseteq> set ns"
  shows "found_edges_flagged self (subgraph g ns) = found_edges_flagged self g"
proof -
  have "flagged_edge (subgraph g ns) l = flagged_edge g l" if "l \<in> set (path_links (found_path self))" for l
  proof (rule flagged_edge_cong)
    obtain u v where l: "l = (u, v)" by (cases l)
    from that l path_links_nodes[of u v "found_path self"] assms
    have "u \<in> set ns" "v \<in> set ns" by auto
    with l show "get_edge_data (subgraph g ns) (fst l) (snd l) = get_edge_data g (fst l) (snd l)"
      by (simp add: get_edge_data_subgraph)
  qed
  then show ?thesis by (simp add: found_edges_flagged_def list_all_iff)
qed

lemma flagged_main_subgraph:
  "get_main_subgraph self g = Inr sub \<Longrightarrow> found_edges_flagged self sub = found_edges_flagged self g"
  by (auto dest!: main_subgraph_form simp: flagged_subgraph)

lemma flagged_reduce_graph:
  assumes "reduce_graph self g = Inr ex"
  shows "found_edges_flagged self ex = found_edges_flagged self g"
proof -
  from assms obtain g1 g2 where "get_reachable_subgraph self g = Inr g1"
    and "get_cycle_subgraph self g1 = Inr g2" and "get_main_subgraph self g2 = Inr ex"
    by (auto simp: reduce_graph_def split: sum.splits)
  then show ?thesis
    by (auto dest!: main_subgraph_form reachable_subgraph_form cycle_subgraph_form
        simp: flagged_subgraph)
qed

lemma flagged_other_keys:
  assumes "\<And>l. l \<in> set (path_links (found_path self)) \<Longrightarrow>
             get_edge_data h (fst l) (snd l) = get_edge_data g (fst l) (snd l)"
  shows "found_edges_flagged self h = found_edges_flagged self g"
proof -
  have "flagged_edge h l = flagged_edge g l" if "l \<in> set (path_links (found_path self))" for l
    by (rule flagged_edge_cong) (rule assms[OF that])
  then show ?thesis by (simp add: found_edges_flagged_def list_all_iff)
qed

subsection \<open>The found path through the pruner\<close>

text \<open>
  The edges of the found path carry their flag in the current subgraph, and no chunk
  holds the key of a found link together with removable data: this is kept by
  \<^verbatim>\<open>check_chunk\<close>, \<^verbatim>\<open>chunk_process\<close>, the main loop and the final sweep.
\<close>

lemma removables_all:
  "removables_of ds = Inr rs \<Longrightarrow> list_all id rs \<Longrightarrow> d \<in> set ds \<Longrightarrow>
   found_path_attr d = Some False \<and> score d < 1"
proof (induction ds arbitrary: rs)
  case Nil
  then show ?case by simp
next
  case (Cons a ds)
  from Cons.prems(1) obtain b bs where b: "removable a = Inr b" and bs: "removables_of ds = Inr bs"
    and rs: "rs = b # bs"
    by (auto split: sum.splits)
  from Cons.prems(2) rs have "b" and all: "list_all id bs" by (auto simp: list_all_iff)
  with b have "found_path_attr a = Some False \<and> score a < 1"
    by (auto simp: removable_def split: if_splits option.splits)
  with Cons.IH[OF bs all] Cons.prems(3) show ?case by auto
qed

lemma chunk_ok_no_found_key:
  assumes "chunk_ok self es ds" and "\<And>d. d \<in> set ds \<Longrightarrow> found_path_attr d = Some False"
    and "e \<in> set es"
  shows "link_key e \<notin> found_keys self"
proof -
  from assms(1) have len: "length es = length ds" by (simp add: chunk_ok_def)
  from assms(3) obtain i where i: "i < length es" "es ! i = e" by (auto simp: in_set_conv_nth)
  with len have z: "(e, ds ! i) \<in> set (zip es ds)" by (auto simp: set_zip)
  from i len have "ds ! i \<in> set ds" by simp
  from assms(2)[OF this] have "found_path_attr (ds ! i) \<noteq> Some True" by simp
  with assms(1) z show ?thesis by (auto simp: chunk_ok_def list_all_iff)
qed

lemma chunk_ok_Nil: "chunk_ok self [] []"
  by (simp add: chunk_ok_def)

lemma chunk_ok_snoc:
  "chunk_ok self es ds \<Longrightarrow> chunk_ok self [e] [d] \<Longrightarrow> chunk_ok self (es @ [e]) (ds @ [d])"
  by (simp add: chunk_ok_def)

lemma chunk_ok_Cons:
  "chunk_ok self (e # es) (d # ds) = (chunk_ok self [e] [d] \<and> chunk_ok self es ds)"
  by (auto simp: chunk_ok_def)

lemma chunk_ok_length: "chunk_ok self es ds \<Longrightarrow> length es = length ds"
  by (simp add: chunk_ok_def)

lemma collect_chunk_ok:
  "collect g n ein din es ds = Inr (a, b, es', ds') \<Longrightarrow> chunk_ok self ein din \<Longrightarrow>
   chunk_ok self es ds \<Longrightarrow> chunk_ok self a b \<and> chunk_ok self es' ds'"
proof (induction g n ein din es ds rule: collect.induct)
  case (1 g chunk_size ein din ds)
  then show ?case by auto
next
  case (2 g chunk_size ein din u v es ds)
  from "2.prems"(3) obtain d ds2 where ds: "ds = d # ds2"
    by (cases ds) (auto simp: chunk_ok_def)
  from "2.prems"(3) ds have "chunk_ok self ((u, v) # es) (d # ds2)" by simp
  then have one: "chunk_ok self [(u, v)] [d]" and rest: "chunk_ok self es ds2"
    using chunk_ok_Cons[of self "(u, v)" es d ds2] by blast+
  show ?case
  proof (cases "length ein < chunk_size")
    case False
    with "2.prems" show ?thesis by simp
  next
    case True
    show ?thesis
    proof (cases "get_edge_data g u v = None")
      case n: True
      with "2.prems"(1) True ds have
        "collect g chunk_size ein din es (tl ds) = Inr (a, b, es', ds')" by simp
      from "2.IH"(2)[OF True _ this "2.prems"(2)] n rest ds show ?thesis by simp
    next
      case n: False
      with "2.prems"(1) True ds have
        "collect g chunk_size (ein @ [(u, v)]) (din @ [d]) es ds2 = Inr (a, b, es', ds')" by simp
      from "2.IH"(1)[OF True n ds this chunk_ok_snoc[OF "2.prems"(2) one] rest] show ?thesis .
    qed
  qed
qed

lemma live_chunk_ok:
  assumes "chunk_ok self es ds"
  shows "chunk_ok self (live_edges g es) (live_data g es ds)"
proof -
  from assms have len: "length es = length ds" by (rule chunk_ok_length)
  from len have z: "zip (live_edges g es) (live_data g es ds) =
                    filter (\<lambda>((u, v), d). get_edge_data g u v \<noteq> None) (zip es ds)"
    by (induction es ds rule: list_induct2) (auto simp: live_edges_def live_data_def)
  from len have l: "length (live_edges g es) = length (live_data g es ds)"
    by (induction es ds rule: list_induct2) (auto simp: live_edges_def live_data_def)
  from assms l show ?thesis
    unfolding chunk_ok_def z by (auto simp: list_all_iff)
qed

lemma check_chunk_flagged:
  assumes k: "check_chunk s es ds = Inr (ok, s', st)"
    and inv: "found_edges_flagged s (tmp_subgraph s)"
    and c: "chunk_ok s es ds"
  shows "found_edges_flagged s (tmp_subgraph s')"
proof -
  from k obtain rs where rs: "removables_of ds = Inr rs"
    by (auto simp: check_chunk_def split: sum.splits)
  show ?thesis
  proof (cases "list_all id rs")
    case False
    with k rs have "s' = s" by (auto simp: check_chunk_def split: if_splits)
    with inv show ?thesis by simp
  next
    case True
    let ?sub = "remove_edges_from (tmp_subgraph s) es"
    have nokey: "link_key e \<notin> found_keys s" if "e \<in> set es" for e
      by (rule chunk_ok_no_found_key[OF c _ that]) (simp add: removables_all[OF rs True])
    have key: "edge_key (fst l) (snd l) \<notin> link_key ` set es"
      if "l \<in> set (path_links (found_path s))" for l
    proof
      assume "edge_key (fst l) (snd l) \<in> link_key ` set es"
      then obtain e where e: "e \<in> set es" and "edge_key (fst l) (snd l) = link_key e" by auto
      then have "link_key l = link_key e" by (cases l) (simp add: link_key_def)
      moreover from that have "link_key l \<in> found_keys s" by (simp add: found_keys_def)
      ultimately have "link_key e \<in> found_keys s" by simp
      with nokey[OF e] show False by simp
    qed
    have sub: "found_edges_flagged s ?sub"
      using inv
      by (subst flagged_other_keys[where g = "tmp_subgraph s"])
         (simp_all add: get_edge_data_remove_edges_from key)
    have res: "found_edges_flagged s (restore_edges ?sub es ds)"
      using sub
      by (subst flagged_other_keys[where g = ?sub])
         (simp_all add: get_edge_data_restore_other key)
    from k rs True obtain ex where ex: "reduce_graph s ?sub = Inr ex"
      by (auto simp: check_chunk_def Let_def split: sum.splits)
    from k rs True ex have
      "tmp_subgraph s' = restore_edges ?sub es ds \<or> tmp_subgraph s' = ex"
      by (auto simp: check_chunk_def Let_def split: if_splits)
    with res sub flagged_reduce_graph[OF ex] show ?thesis by auto
  qed
qed

lemma frame_found_path: "frame a b \<Longrightarrow> found_path b = found_path a"
  by (auto simp: frame_def)

lemma frame_flagged: "frame a b \<Longrightarrow> found_edges_flagged b g = found_edges_flagged a g"
  by (simp add: found_edges_flagged_def frame_found_path)

lemma frame_chunk_ok: "frame a b \<Longrightarrow> chunk_ok b es ds = chunk_ok a es ds"
  by (simp add: chunk_ok_def found_keys_def frame_found_path)

lemma flagged_key_differs:
  assumes "found_edges_flagged s g" and "l \<in> set (path_links (found_path s))"
    and "get_edge_data g u v = Some d" and "found_path_attr d \<noteq> Some True"
  shows "edge_key (fst l) (snd l) \<noteq> edge_key u v"
proof
  assume eq: "edge_key (fst l) (snd l) = edge_key u v"
  from assms(1,2) have "flagged_edge g l" by (simp add: found_edges_flagged_def list_all_iff)
  then obtain d' where "get_edge_data g (fst l) (snd l) = Some d'" and "found_path_attr d' = Some True"
    by (cases l) (auto simp: flagged_edge_def split: option.splits)
  with eq assms(3,4) show False by (simp add: get_edge_data_def)
qed

lemma final_sweep_flagged:
  "final_sweep s g sl = Inr g' \<Longrightarrow> found_edges_flagged s g \<Longrightarrow> found_edges_flagged s g'"
proof (induction s g sl rule: final_sweep.induct)
  case (1 self g)
  then show ?case by simp
next
  case (2 self g u v sc rest)
  show ?case
  proof (cases "get_edge_data g u v")
    case None
    with "2.prems" "2.IH"(1) show ?thesis by simp
  next
    case (Some d)
    from "2.prems"(1) Some obtain b where b: "found_path_attr d = Some b"
      by (cases "found_path_attr d") auto
    show ?thesis
    proof (cases b)
      case True
      with "2.prems" Some b "2.IH"(2)[OF Some b] show ?thesis by simp
    next
      case False
      then have bF: "b = False" by simp
      from "2.prems"(1) Some b False obtain g1 where r: "remove_edge g u v = Inr g1"
        by (auto split: sum.splits)
      have key: "edge_key (fst l) (snd l) \<noteq> edge_key u v"
        if "l \<in> set (path_links (found_path self))" for l
        by (rule flagged_key_differs[OF "2.prems"(2) that Some]) (simp add: b False)
      have f1: "found_edges_flagged self g1"
        using "2.prems"(2)
        by (subst flagged_other_keys[where g = g])
           (simp_all add: get_edge_data_remove_edge_other[OF r] key)
      have f2: "found_edges_flagged self (add_edge g1 u v d)"
        using f1
        by (subst flagged_other_keys[where g = g1])
           (simp_all add: get_edge_data_add_edge_other key)
      show ?thesis
      proof (cases "check_constraints self g1")
        case c: True
        with "2.prems"(1) Some b False r have "final_sweep self g1 rest = Inr g'" by simp
        from "2.IH"(3)[OF Some b bF r c this f1] show ?thesis .
      next
        case c: False
        with "2.prems"(1) Some b False r have
          "final_sweep self (add_edge g1 u v d) rest = Inr g'" by simp
        from "2.IH"(4)[OF Some b bF r c this f2] show ?thesis .
      qed
    qed
  qed
qed

lemma mark_found_path_keeps:
  "mark_found_path g ls = Inr g' \<Longrightarrow> flagged_edge g l \<Longrightarrow> flagged_edge g' l"
proof (induction g ls rule: mark_found_path.induct)
  case (1 g)
  then show ?case by simp
next
  case (2 g u v ls)
  from "2.prems"(1) obtain d where d: "get_edge_data g u v = Some d"
    by (auto split: option.splits)
  let ?g = "g\<lparr>edge_list := AList.update (edge_key u v) (set_found_path_attr True d) (edge_list g)\<rparr>"
  from "2.prems"(1) d have m: "mark_found_path ?g ls = Inr g'" by simp
  from "2.prems"(2) have "flagged_edge ?g l"
    by (cases l) (auto simp: flagged_edge_def get_edge_data_def update_conv'
        set_found_path_attr_def split: option.splits)
  from "2.IH"[OF d m this] show ?case .
qed

lemma mark_found_path_flags:
  "mark_found_path g ls = Inr g' \<Longrightarrow> list_all (flagged_edge g') ls"
proof (induction g ls rule: mark_found_path.induct)
  case (1 g)
  then show ?case by simp
next
  case (2 g u v ls)
  from "2.prems"(1) obtain d where d: "get_edge_data g u v = Some d"
    by (auto split: option.splits)
  let ?g = "g\<lparr>edge_list := AList.update (edge_key u v) (set_found_path_attr True d) (edge_list g)\<rparr>"
  from "2.prems"(1) d have m: "mark_found_path ?g ls = Inr g'" by simp
  have "flagged_edge ?g (u, v)"
    by (simp add: flagged_edge_def get_edge_data_def update_conv' set_found_path_attr_def)
  from mark_found_path_keeps[OF m this] "2.IH"[OF d m] show ?case by simp
qed

lemma generate_initial_graph_flagged:
  "generate_initial_graph s = Inr g0 \<Longrightarrow> found_edges_flagged s g0"
  by (auto simp: generate_initial_graph_def found_edges_flagged_def split: sum.splits
      dest: mark_found_path_flags)

lemma edge_data_list_chunk_ok:
  "edge_data_list g0 sl = Inr ds \<Longrightarrow> found_edges_flagged s g0 \<Longrightarrow>
   chunk_ok s (map (\<lambda>(i, j, d). (i, j)) sl) ds"
proof (induction g0 sl arbitrary: ds rule: edge_data_list.induct)
  case (1 g)
  then show ?case by (simp add: chunk_ok_Nil)
next
  case (2 g i j sc rest)
  from "2.prems"(1) obtain d ds2 where d: "get_edge_data g i j = Some d"
    and r: "edge_data_list g rest = Inr ds2" and ds: "ds = d # ds2"
    by (auto split: option.splits sum.splits)
  have one: "chunk_ok s [(i, j)] [d]"
  proof -
    have "found_path_attr d = Some True" if "link_key (i, j) \<in> found_keys s"
    proof (rule ccontr)
      assume n: "found_path_attr d \<noteq> Some True"
      from that obtain l where l: "l \<in> set (path_links (found_path s))"
        and k: "link_key l = link_key (i, j)" by (auto simp: found_keys_def)
      from flagged_key_differs[OF "2.prems"(2) l d n] k show False
        by (cases l) (simp add: link_key_def)
    qed
    then show ?thesis by (simp add: chunk_ok_def)
  qed
  from "2.IH"[OF d r "2.prems"(2)] one show ?case
    using chunk_ok_Cons[of s "(i, j)" "map (\<lambda>(i, j, d). (i, j)) rest" d ds2] by (simp add: ds)
qed

lemma main_loop_flagged:
  assumes l: "main_loop limit s3 cs es ds = Inr s4"
    and inv: "found_edges_flagged s3 (tmp_subgraph s3)" and c: "chunk_ok s3 es ds"
  shows "found_edges_flagged s3 (tmp_subgraph s4)"
proof -
  let ?I = "\<lambda>s. frame s3 s \<and> found_edges_flagged s3 (tmp_subgraph s)"
  have "?I s4"
  proof (rule main_loop_invariant[where I = ?I and C = "chunk_ok s3", OF _ _ _ l _ c])
    show "?I s3" using inv by (simp add: frame_refl)
  next
    fix s es ds ok s' st
    assume i: "?I s" and c: "chunk_ok s3 es ds" and k: "check_chunk s es ds = Inr (ok, s', st)"
    from i have f: "frame s3 s" by simp
    from check_chunk_flagged[OF k] i c have "found_edges_flagged s (tmp_subgraph s')"
      by (simp add: frame_flagged[OF f] frame_chunk_ok[OF f])
    with f frame_trans[OF f check_chunk_frame[OF k]] show "?I s'"
      by (simp add: frame_flagged[OF f])
  next
    fix g n es ds a b es' ds'
    assume "chunk_ok s3 es ds" and "collect g n [] [] es ds = Inr (a, b, es', ds')"
    then show "chunk_ok s3 a b \<and> chunk_ok s3 es' ds'"
      by (rule collect_chunk_ok[OF _ chunk_ok_Nil, rotated])
  next
    fix g es ds
    assume "chunk_ok s3 es ds"
    then show "chunk_ok s3 (live_edges g es) (live_data g es ds)" by (rule live_chunk_ok)
  qed
  then show ?thesis by simp
qed

subsection \<open>The two loops of \<^verbatim>\<open>make_graph\<close> as folds\<close>

text \<open>
  The node map and the edge map after the loop over the pairs and the loop over the
  names, compared with the maps of the single pass.
\<close>

lemma add_scored_pair:
  "add_scored t ((u, v), s) g =
     (if np_round2 s \<ge> t then add_edge g u v \<lparr>score = np_round2 s, found_path_attr = None\<rparr>
      else g)"
  by (simp add: add_scored_def)

lemma set_edges_read:
  "set_edges mo t g ps =
     (case read_scores mo ps of Inl e \<Rightarrow> Inl e | Inr xs \<Rightarrow> Inr (fold (add_scored t) xs g))"
  by (induction mo t g ps rule: set_edges.induct)
     (auto simp: add_scored_pair Let_def split: sum.splits)

lemma make_graph_loop_read:
  assumes "read_scores (score_matrix self) (combinations2 (N self)) = Inr xs"
  shows "make_graph_loop self t g ns =
         Inr (fold (\<lambda>(i, name) g. fold (add_scored t) xs (set_label (add_node g i) i name)) ns g)"
  using assms by (induction ns arbitrary: g) (auto simp: set_edges_read)


lemma node_map_add_node: "map_of (node_list (add_node g n)) = touch n (map_of (node_list g))"
proof -
  have "map_of (node_list g) n = None \<longleftrightarrow> \<not> has_node g n"
    by (simp add: has_node_def nodes_of_def map_of_eq_None_iff)
  then show ?thesis
    by (auto simp: add_node_def touch_def fun_eq_iff map_add_def split: option.splits)
qed

lemma node_map_set_label:
  "map_of (node_list (set_label g n l)) =
     (\<lambda>m. if m = n \<and> map_of (node_list g) n \<noteq> None then Some (Some l) else map_of (node_list g) m)"
proof -
  have "map_of (map (\<lambda>(m, a). if m = n then (m, Some l) else (m, a)) xs) k =
        (if k = n \<and> map_of xs n \<noteq> None then Some (Some l) else map_of xs k)"
    for xs :: "(nat \<times> string option) list" and k
    by (induction xs) auto
  then show ?thesis by (simp add: set_label_def fun_eq_iff)
qed

lemma node_map_add_edge:
  "map_of (node_list (add_edge g u v d)) = touch v (touch u (map_of (node_list g)))"
  by (simp add: add_edge_def Let_def node_map_add_node)

lemma edge_map_add_node [simp]: "edge_list (add_node g n) = edge_list g"
  by (simp add: add_node_def)

lemma edge_map_set_label [simp]: "edge_list (set_label g n l) = edge_list g"
  by (simp add: set_label_def)

lemma edge_map_add_scored:
  assumes "unflagged g"
  shows "map_of (edge_list (add_scored t x g)) = scored_update t x (map_of (edge_list g)) \<and>
         unflagged (add_scored t x g)"
proof -
  obtain u v s where x: "x = ((u, v), s)" by (cases x) auto
  show ?thesis
  proof (cases "np_round2 s \<ge> t")
    case False
    with x assms show ?thesis by (simp add: add_scored_pair scored_update_def)
  next
    case True
    let ?d = "\<lparr>score = np_round2 s, found_path_attr = None\<rparr>"
    have m: "(case map_of (edge_list g) (edge_key u v) of None \<Rightarrow> ?d | Some old \<Rightarrow> merge_attrs old ?d) = ?d"
      using assms[unfolded unflagged_def, rule_format, of "edge_key u v"]
      by (auto simp: merge_attrs_def split: option.splits)
    have e: "map_of (edge_list (add_edge g u v ?d)) = (map_of (edge_list g))(edge_key u v \<mapsto> ?d)"
      by (simp add: add_edge_def Let_def m update_conv')
    with x True assms show ?thesis
      by (auto simp: add_scored_pair scored_update_def unflagged_def)
  qed
qed

lemma edge_map_fold_scored:
  "unflagged g \<Longrightarrow>
   map_of (edge_list (fold (add_scored t) xs g)) = fold (scored_update t) xs (map_of (edge_list g)) \<and>
   unflagged (fold (add_scored t) xs g)"
  by (induction xs arbitrary: g) (auto simp: edge_map_add_scored)

lemma scored_update_map_add: "scored_update t x m = m ++ scored_update t x Map.empty"
  by (cases x) (auto simp: scored_update_def)

lemma fold_scored_map_add:
  "fold (scored_update t) xs m = m ++ fold (scored_update t) xs Map.empty"
proof (induction xs arbitrary: m)
  case Nil
  then show ?case by simp
next
  case (Cons x xs)
  have "fold (scored_update t) (x # xs) m = scored_update t x m ++ fold (scored_update t) xs Map.empty"
    using Cons[of "scored_update t x m"] by simp
  also have "\<dots> = m ++ (scored_update t x Map.empty ++ fold (scored_update t) xs Map.empty)"
    by (subst scored_update_map_add) simp
  also have "\<dots> = m ++ fold (scored_update t) (x # xs) Map.empty"
    using Cons[of "scored_update t x Map.empty"] by simp
  finally show ?case .
qed

lemma fold_scored_idem:
  "fold (scored_update t) xs (fold (scored_update t) xs m) = fold (scored_update t) xs m"
proof -
  let ?F = "fold (scored_update t) xs Map.empty"
  have "fold (scored_update t) xs (fold (scored_update t) xs m) = (m ++ ?F) ++ ?F"
    using fold_scored_map_add[of t xs "fold (scored_update t) xs m"]
      fold_scored_map_add[of t xs m] by simp
  also have "\<dots> = m ++ ?F" by (auto simp: fun_eq_iff map_add_def split: option.splits)
  also have "\<dots> = fold (scored_update t) xs m" by (rule fold_scored_map_add[symmetric])
  finally show ?thesis .
qed

lemma scored_nodes_Cons:
  "scored_nodes t (x # xs) = scored_nodes t [x] \<union> scored_nodes t xs"
  by (auto simp: scored_nodes_def)

lemma scored_nodes_Nil [simp]: "scored_nodes t [] = {}"
  by (simp add: scored_nodes_def)

lemma node_map_add_scored:
  "map_of (node_list (add_scored t x g)) n =
     (if map_of (node_list g) n \<noteq> None then map_of (node_list g) n
      else if n \<in> scored_nodes t [x] then Some None else None)"
proof -
  obtain u v s where x: "x = ((u, v), s)" by (cases x) auto
  show ?thesis
    by (auto simp: x add_scored_pair scored_nodes_def node_map_add_edge touch_def)
qed

lemma node_map_fold_scored:
  "map_of (node_list (fold (add_scored t) xs g)) n =
     (if map_of (node_list g) n \<noteq> None then map_of (node_list g) n
      else if n \<in> scored_nodes t xs then Some None else None)"
proof (induction xs arbitrary: g)
  case Nil
  then show ?case by auto
next
  case (Cons x xs)
  show ?case
    unfolding fold_simps Cons[of "add_scored t x g"] scored_nodes_Cons[of t x xs]
    by (auto simp: node_map_add_scored)
qed

lemma node_map_label_step:
  "map_of (node_list (label_step (i, name) g)) =
     (map_of (node_list g))(i \<mapsto> Some name)"
  by (auto simp: label_step_def node_map_set_label node_map_add_node touch_def fun_eq_iff)

lemma enumerate_snoc:
  "zip [0 ..< length (ns @ [x])] (ns @ [x]) = zip [0 ..< length ns] ns @ [(length ns, x)]"
  by simp


lemma scored_step_maps:
  assumes "unflagged g"
  shows "map_of (node_list (scored_step t xs (i, name) g)) n =
           (if n = i then Some (Some name)
            else if map_of (node_list g) n \<noteq> None then map_of (node_list g) n
            else if n \<in> scored_nodes t xs then Some None else None)"
    and "map_of (edge_list (scored_step t xs (i, name) g)) =
           fold (scored_update t) xs (map_of (edge_list g))"
    and "unflagged (scored_step t xs (i, name) g)"
proof -
  have u: "unflagged (set_label (add_node g i) i name)"
    using assms by (simp add: unflagged_def)
  show "map_of (node_list (scored_step t xs (i, name) g)) n =
           (if n = i then Some (Some name)
            else if map_of (node_list g) n \<noteq> None then map_of (node_list g) n
            else if n \<in> scored_nodes t xs then Some None else None)"
    using node_map_label_step[of i name g]
    by (auto simp: scored_step_def node_map_fold_scored label_step_def)
  from edge_map_fold_scored[OF u, of t xs]
  show "map_of (edge_list (scored_step t xs (i, name) g)) =
           fold (scored_update t) xs (map_of (edge_list g))"
    and "unflagged (scored_step t xs (i, name) g)"
    by (simp_all add: scored_step_def)
qed

lemma scored_loop_maps:
  "map_of (node_list (fold (scored_step t xs) (zip [0 ..< length ns] ns) empty_graph)) n =
     (if n < length ns then Some (Some (ns ! n))
      else if ns \<noteq> [] \<and> n \<in> scored_nodes t xs then Some None else None) \<and>
   map_of (edge_list (fold (scored_step t xs) (zip [0 ..< length ns] ns) empty_graph)) =
     (if ns = [] then Map.empty else fold (scored_update t) xs Map.empty) \<and>
   unflagged (fold (scored_step t xs) (zip [0 ..< length ns] ns) empty_graph)"
proof (induction ns arbitrary: n rule: rev_induct)
  case Nil
  then show ?case by (simp add: empty_graph_def unflagged_def)
next
  case (snoc x ns)
  let ?g = "fold (scored_step t xs) (zip [0 ..< length ns] ns) empty_graph"
  from snoc have u: "unflagged ?g" by simp
  have f: "fold (scored_step t xs) (zip [0 ..< length (ns @ [x])] (ns @ [x])) empty_graph =
           scored_step t xs (length ns, x) ?g"
    unfolding enumerate_snoc by simp
  show ?case
    unfolding f scored_step_maps(1,2)[OF u]
    using snoc[of n] snoc[of 0] scored_step_maps(3)[OF u, of t xs "length ns" x]
    by (auto simp: nth_append fold_scored_idem)
qed

lemma read_scores_keys: "read_scores mo ps = Inr xs \<Longrightarrow> map fst xs = ps"
  by (induction mo ps arbitrary: xs rule: read_scores.induct) (auto split: sum.splits)

lemma combinations2_bound: "(u, v) \<in> set (combinations2 n) \<Longrightarrow> u < v \<and> v < n"
  by (auto simp: combinations2_def)

lemma scored_nodes_bound:
  assumes "map fst xs = combinations2 n" and "k \<in> scored_nodes t xs"
  shows "k < n"
proof -
  from assms(2) obtain u v s where x: "((u, v), s) \<in> set xs" and k: "k = u \<or> k = v"
    by (auto simp: scored_nodes_def split: if_splits)
  from x have "(u, v) \<in> set (map fst xs)" by force
  with assms(1) combinations2_bound[of u v n] k show ?thesis by auto
qed

lemma make_graph_loop_fold:
  assumes "read_scores (score_matrix self) (combinations2 (N self)) = Inr xs"
  shows "make_graph_loop self t g ns = Inr (fold (scored_step t xs) ns g)"
proof -
  have "(\<lambda>(i, name) g. fold (add_scored t) xs (set_label (add_node g i) i name)) = scored_step t xs"
    by (auto simp: scored_step_def fun_eq_iff)
  with make_graph_loop_read[OF assms, of t g ns] show ?thesis by simp
qed


subsection \<open>Path enumeration and the least index\<close>

text \<open>
  The depth-first enumeration lists exactly the simple paths within the cutoff;
  \<^verbatim>\<open>argmin\<close> is the first index of a least element; sorting does not change a sum.
\<close>

lemma paths_from_set:
  "set (paths_from g t k path cur) =
     {path @ q | q. q \<noteq> [] \<and> length q \<le> k \<and> last q = t \<and> distinct q \<and>
                    set q \<inter> set path = {} \<and> walk g cur q}"
proof (induction k arbitrary: path cur)
  case 0
  then show ?case by auto
next
  case (Suc k)
  show ?case (is "?L = ?R")
  proof (rule set_eqI)
    fix p
    show "p \<in> ?L \<longleftrightarrow> p \<in> ?R"
    proof
      assume "p \<in> ?L"
      then obtain c where c: "c \<in> set (neighbors g cur)" and nc: "c \<notin> set path"
        and p: "p \<in> set (if c = t then [path @ [c]] else paths_from g t k (path @ [c]) c)"
        by (auto split: if_splits)
      show "p \<in> ?R"
      proof (cases "c = t")
        case True
        with p have "p = path @ [c]" by simp
        with c nc True show ?thesis by (intro CollectI exI[of _ "[c]"]) simp
      next
        case False
        with p have "p \<in> set (paths_from g t k (path @ [c]) c)" by simp
        then obtain q where q: "p = (path @ [c]) @ q" "q \<noteq> []" "length q \<le> k" "last q = t"
          "distinct q" "set q \<inter> set (path @ [c]) = {}" "walk g c q"
          unfolding Suc.IH by blast
        with c nc show ?thesis by (intro CollectI exI[of _ "c # q"]) auto
      qed
    next
      assume "p \<in> ?R"
      then obtain q where q: "p = path @ q" "q \<noteq> []" "length q \<le> Suc k" "last q = t"
        "distinct q" "set q \<inter> set path = {}" "walk g cur q"
        by blast
      then obtain c q' where cq: "q = c # q'" by (cases q) auto
      with q have c: "c \<in> set (neighbors g cur)" and nc: "c \<notin> set path"
        and w: "walk g c q'" by auto
      show "p \<in> ?L"
      proof (cases "c = t")
        case True
        with q cq have "q' = []" by (cases q' rule: rev_cases) auto
        with q cq True c nc show ?thesis by (auto intro!: bexI[of _ c])
      next
        case False
        with q cq have ne: "q' \<noteq> []" by auto
        with q cq nc w have "p \<in> set (paths_from g t k (path @ [c]) c)"
          unfolding Suc.IH by (intro CollectI exI[of _ q']) auto
        with c nc False show ?thesis by (auto intro!: bexI[of _ c])
      qed
    qed
  qed
qed

lemma length_path_links: "length (path_links p) = length p - 1"
  by (induction p rule: path_links.induct) auto

lemma simple_path_trivial:
  "simple_path g s s q \<longleftrightarrow> has_node g s \<and> q = [s]"
proof
  assume a: "simple_path g s s q"
  then have n: "has_node g s" and ne: "q \<noteq> []" and h: "hd q = s" and l: "last q = s"
    and d: "distinct q"
    by (simp_all add: simple_path_def)
  from ne obtain a r where q: "q = a # r" by (cases q) auto
  with h have as: "a = s" by simp
  have "r = []"
  proof (rule ccontr)
    assume "r \<noteq> []"
    then have "last r \<in> set r" by simp
    moreover from \<open>r \<noteq> []\<close> l q have "last r = s" by simp
    ultimately show False using d q as by simp
  qed
  with q as n show "has_node g s \<and> q = [s]" by simp
next
  assume "has_node g s \<and> q = [s]"
  then show "simple_path g s s q" by (simp add: simple_path_def)
qed

lemma simple_path_Cons:
  assumes "s \<noteq> t"
  shows "simple_path g s t q \<longleftrightarrow>
         has_node g s \<and> has_node g t \<and>
         (\<exists>r. q = s # r \<and> r \<noteq> [] \<and> last r = t \<and> distinct r \<and> s \<notin> set r \<and> walk g s r)"
proof
  assume a: "simple_path g s t q"
  then obtain r where q: "q = s # r" by (cases q) (simp_all add: simple_path_def)
  from a q assms have "r \<noteq> []" by (auto simp: simple_path_def)
  with a q show "has_node g s \<and> has_node g t \<and>
         (\<exists>r. q = s # r \<and> r \<noteq> [] \<and> last r = t \<and> distinct r \<and> s \<notin> set r \<and> walk g s r)"
    by (simp add: simple_path_def)
next
  assume "has_node g s \<and> has_node g t \<and>
         (\<exists>r. q = s # r \<and> r \<noteq> [] \<and> last r = t \<and> distinct r \<and> s \<notin> set r \<and> walk g s r)"
  then obtain r where "has_node g s" "has_node g t" "q = s # r" "r \<noteq> []" "last r = t"
    "distinct r" "s \<notin> set r" "walk g s r" by blast
  then show "simple_path g s t q" by (simp add: simple_path_def)
qed

lemma all_simple_paths_set:
  assumes "all_simple_paths g s t L = Inr paths"
  shows "set paths = {q. simple_path g s t q \<and> length (path_links q) \<le> L}"
proof -
  from assms have n: "has_node g s" "has_node g t"
    by (auto simp: all_simple_paths_def split: if_splits)
  show ?thesis
  proof (cases "s = t")
    case True
    with assms n have "paths = [[s]]" by (simp add: all_simple_paths_def)
    then have "set paths = {[s]}" by simp
    also have "\<dots> = {q. simple_path g s t q \<and> length (path_links q) \<le> L}"
      unfolding True[symmetric] simple_path_trivial using n(1) by auto
    finally show ?thesis .
  next
    case False
    with assms n have p: "paths = paths_from g t L [s] s" by (simp add: all_simple_paths_def)
    have "set paths = {[s] @ r | r. r \<noteq> [] \<and> length r \<le> L \<and> last r = t \<and> distinct r \<and>
                    set r \<inter> set [s] = {} \<and> walk g s r}"
      unfolding p by (rule paths_from_set)
    also have "\<dots> = {q. simple_path g s t q \<and> length (path_links q) \<le> L}"
    proof (rule set_eqI)
      fix q
      have "(\<exists>r. q = [s] @ r \<and> r \<noteq> [] \<and> length r \<le> L \<and> last r = t \<and> distinct r \<and>
                 set r \<inter> set [s] = {} \<and> walk g s r) \<longleftrightarrow>
            (simple_path g s t q \<and> length (path_links q) \<le> L)"
        unfolding simple_path_Cons[OF False] using n
        by (auto simp: length_path_links)
      then show "q \<in> {[s] @ r | r. r \<noteq> [] \<and> length r \<le> L \<and> last r = t \<and> distinct r \<and>
                    set r \<inter> set [s] = {} \<and> walk g s r} \<longleftrightarrow>
                 q \<in> {q. simple_path g s t q \<and> length (path_links q) \<le> L}"
        by simp
    qed
    finally show ?thesis .
  qed
qed









subsection \<open>Graphs built from a square matrix\<close>

text \<open>
  On an N by N matrix every read of a score succeeds, so \<^verbatim>\<open>make_graph\<close> returns a graph
  whose nodes are the indices below N, stored under ordered keys.
\<close>

lemma fold_invariant:
  assumes "\<And>x g. P g \<Longrightarrow> P (f x g)" and "P g"
  shows "P (fold f xs g)"
  using assms(2) by (induction xs arbitrary: g) (auto intro: assms(1))

lemma keys_normal_add_edge:
  assumes "keys_normal g"
  shows "keys_normal (add_edge g u v d)"
proof -
  have e: "fst ` set (edge_list (add_edge g u v d)) = {edge_key u v} \<union> fst ` set (edge_list g)"
    by (simp add: add_edge_def Let_def dom_update)
  have "fst k \<le> snd k" if "k \<in> fst ` set (edge_list (add_edge g u v d))" for k
  proof -
    from that e consider "k = edge_key u v" | "k \<in> fst ` set (edge_list g)" by auto
    then show ?thesis
    proof cases
      case 1
      then show ?thesis by (simp add: edge_key_def)
    next
      case 2
      then obtain d' where "(k, d') \<in> set (edge_list g)" by auto
      with assms show ?thesis unfolding keys_normal_def list_all_iff by fastforce
    qed
  qed
  then show ?thesis unfolding keys_normal_def list_all_iff by force
qed

lemma keys_normal_scored_step: "keys_normal g \<Longrightarrow> keys_normal (scored_step t xs x g)"
proof -
  assume a: "keys_normal g"
  obtain i name where x: "x = (i, name)" by (cases x)
  have b: "keys_normal (set_label (add_node g i) i name)"
    using a by (simp add: keys_normal_def)
  have "keys_normal (add_scored t y h)" if "keys_normal h" for y h
  proof -
    obtain u v sc where y: "y = ((u, v), sc)" by (cases y) auto
    from that show ?thesis by (simp add: y add_scored_pair keys_normal_add_edge)
  qed
  from fold_invariant[where P = keys_normal and f = "add_scored t", OF this b]
  show ?thesis by (simp add: x scored_step_def)
qed

lemma neighbors_edge_data:
  assumes "keys_normal g" and "v \<in> set (neighbors g u)"
  shows "get_edge_data g u v \<noteq> None"
proof -
  from assms(2) obtain a b d where m: "((a, b), d) \<in> set (edge_list g)"
    and c: "(a = u \<and> v = b) \<or> (a \<noteq> u \<and> b = u \<and> v = a)"
    by (auto simp: neighbors_def adjacency_def split: if_splits)
  from assms(1) m have "a \<le> b" by (auto simp: keys_normal_def list_all_iff)
  with c have "edge_key u v = (a, b)" by (auto simp: edge_key_def)
  with m have "edge_key u v \<in> fst ` set (edge_list g)" by force
  then show ?thesis by (simp add: get_edge_data_def map_of_eq_None_iff)
qed

lemma walk_path_scores:
  assumes "keys_normal g"
  shows "walk g c q \<Longrightarrow> \<exists>ss. path_scores g (path_links (c # q)) = Inr ss"
proof (induction q arbitrary: c)
  case Nil
  then show ?case by simp
next
  case (Cons a q)
  then have "a \<in> set (neighbors g c)" and "walk g a q" by simp_all
  from neighbors_edge_data[OF assms this(1)] Cons.IH[OF this(2)] show ?case
    by (auto split: option.splits)
qed

lemma paths_scores_list_total:
  assumes "keys_normal g" and "\<And>p. p \<in> set ps \<Longrightarrow> p \<noteq> [] \<and> walk g (hd p) (tl p)"
  shows "\<exists>pss. path_scores_list g ps = Inr pss"
  using assms(2)
proof (induction ps)
  case Nil
  then show ?case by simp
next
  case (Cons p ps)
  from Cons.prems[of p] have "p \<noteq> []" and "walk g (hd p) (tl p)" by simp_all
  with walk_path_scores[OF assms(1), of "hd p" "tl p"]
  obtain ss where "path_scores g (path_links p) = Inr ss" by auto
  moreover from Cons.IH Cons.prems obtain pss where "path_scores_list g ps = Inr pss" by auto
  ultimately show ?case by simp
qed

lemma matrix_get_square:
  "square m n \<Longrightarrow> u < n \<Longrightarrow> v < n \<Longrightarrow> matrix_get (Some m) u v = Inr (m ! u ! v)"
  by (auto simp: square_def matrix_get_def list_all_iff)

lemma read_scores_total:
  assumes "square m n" and "\<And>u v. (u, v) \<in> set ps \<Longrightarrow> u < n \<and> v < n"
  shows "\<exists>xs. read_scores (Some m) ps = Inr xs"
  using assms(2)
proof (induction ps)
  case Nil
  then show ?case by simp
next
  case (Cons a ps)
  obtain u v where a: "a = (u, v)" by (cases a)
  from Cons.prems[of u v] a have "u < n" "v < n" by simp_all
  from matrix_get_square[OF assms(1) this] have g: "matrix_get (Some m) u v = Inr (m ! u ! v)" .
  have "\<And>u v. (u, v) \<in> set ps \<Longrightarrow> u < n \<and> v < n"
    by (rule Cons.prems) simp
  from Cons.IH[OF this] obtain xs where "read_scores (Some m) ps = Inr xs" by blast
  with g a show ?case by simp
qed

lemma has_node_map: "has_node g n \<longleftrightarrow> map_of (node_list g) n \<noteq> None"
  by (simp add: has_node_def nodes_of_def map_of_eq_None_iff)

lemma make_graph_total:
  assumes "N self = length (intermediate_names self)" and "score_matrix self = Some m"
    and "square m (N self)"
  shows "\<exists>g. make_graph self min_score = Inr g \<and> keys_normal g \<and>
             (\<forall>n. has_node g n \<longleftrightarrow> n < N self)"
proof -
  define t where "t = (case min_score of None \<Rightarrow> minScoreThreshold self | Some t \<Rightarrow> t)"
  define ns where "ns = intermediate_names self"
  have "\<And>u v. (u, v) \<in> set (combinations2 (N self)) \<Longrightarrow> u < N self \<and> v < N self"
    using combinations2_bound by fastforce
  from read_scores_total[OF assms(3) this] assms(2) obtain xs where
    xs: "read_scores (score_matrix self) (combinations2 (N self)) = Inr xs" by auto
  let ?g = "fold (scored_step t xs) (zip [0 ..< length ns] ns) empty_graph"
  have mg: "make_graph self min_score = Inr ?g"
    using make_graph_loop_fold[OF xs, of t empty_graph "zip [0 ..< length ns] ns"]
    by (simp add: make_graph_def enumerate_names_def t_def ns_def)
  have "keys_normal empty_graph" by (simp add: keys_normal_def empty_graph_def)
  then have kn: "keys_normal ?g"
    by (rule fold_invariant[where P = keys_normal, rotated]) (rule keys_normal_scored_step)
  from read_scores_keys[OF xs] have keys: "map fst xs = combinations2 (length ns)"
    by (simp add: assms(1) ns_def)
  have "has_node ?g n \<longleftrightarrow> n < N self" for n
  proof (cases "n < length ns")
    case True
    with scored_loop_maps[of t xs ns n] show ?thesis
      by (simp add: has_node_map assms(1) ns_def[symmetric])
  next
    case False
    with scored_nodes_bound[OF keys, of n t] have "n \<notin> scored_nodes t xs" by auto
    with False scored_loop_maps[of t xs ns n] show ?thesis
      by (simp add: has_node_map assms(1) ns_def[symmetric])
  qed
  with mg kn show ?thesis by blast
qed

subsection \<open>The shape check of the constructor\<close>




subsection \<open>Edges of score 1.0 in the final sweep\<close>

text \<open>
  C1 (the code at a failing input). Four intermediates, the default configuration and
  the matrix \<open>two_triangles\<close>: the found path is the edge 0-1, every other edge has
  score 1.0. The chunked phase removes nothing, so the current subgraph still has the
  edge 0-2 with score 1.0 when the final sweep starts; the sweep removes it (the edge
  0-1 stays on the triangle 0-1-3), and the returned graph has no edge 0-2. The sweep
  tests \<^verbatim>\<open>found_path\<close> only, where \<^verbatim>\<open>check_chunk\<close> also tests the score.
\<close>

theorem final_sweep_removes_score_one:
  "case build_map no_scoring (\<lambda>n c. 0) 10
          (generator_of (default_params (unnamed 4)) two_triangles) of
     Inl e \<Rightarrow> False
   | Inr (g, self) \<Rightarrow>
       map_option score (get_edge_data (tmp_subgraph self) 0 2) = Some 1 \<and>
       get_edge_data g 0 2 = None \<and>
       found_path self = [0, 1]"
  by code_simp

subsection \<open>Scores on the optimal path graph\<close>

text \<open>
  C4 (the code at a failing input). Two intermediates with the score 0.876 and
  \<^verbatim>\<open>optimal_path_mode\<close>: the graph \<^verbatim>\<open>build_map\<close> returns carries 0.876 on its edge, not the
  rounded 0.88 that \<^verbatim>\<open>make_graph\<close> puts on the same edge.
\<close>

theorem optimal_path_graph_score_not_rounded:
  "case build_map no_scoring (\<lambda>n c. 0) 10
          (generator_of ((default_params (unnamed 2))\<lparr>optimal_path_mode := True\<rparr>) raw_pair) of
     Inl e \<Rightarrow> False
   | Inr (g, self) \<Rightarrow>
       map_option score (get_edge_data g 0 1) = Some (219/250) \<and>
       np_round2 (219/250) = 22/25 \<and>
       (case make_graph self None of
          Inl e \<Rightarrow> False
        | Inr h \<Rightarrow> map_option score (get_edge_data h 0 1) = Some (22/25))"
  by code_simp

subsection \<open>A rejected chunk that is not restored\<close>

text \<open>
  C6 (the code at a failing input). Four intermediates, \<^verbatim>\<open>chunkScale = 2\<close> and the
  matrix \<open>four_clique\<close>; the first chunk of the main loop is the four weakest edges
  \<open>(0,3), (1,3), (2,3), (0,2)\<close>. \<^verbatim>\<open>chunk_process\<close> has it rejected as a whole and splits
  it in chunks of two. The first, \<open>(0,3), (1,3)\<close>, is accepted: the reduction drops
  node 3 and with it the edge 2-3, and a new graph object becomes current. The second
  chunk is gathered by reading the old object, which still has the edge 2-3, so it is
  \<open>(2,3), (0,2)\<close>. \<^verbatim>\<open>check_chunk\<close> rejects it and re-inserts both edges: the current
  subgraph, which had no edge 2-3 and no node 3 before the call, has both after it.
\<close>

theorem check_chunk_reject_not_atomic:
  "case find_optimal_path (generator_of four_clique_params four_clique) of
     Inl e \<Rightarrow> False
   | Inr (fp, s1) \<Rightarrow>
       (case prune_setup (\<lambda>n c. 2) s1 of
          Inl e \<Rightarrow> False
        | Inr (s2, es, ds, cs) \<Rightarrow>
            cs = 4 \<and> take 4 es = [(0, 3), (1, 3), (2, 3), (0, 2)] \<and>
            (case check_chunk s2 (take 4 es) (take 4 ds) of
               Inl e \<Rightarrow> False
             | Inr (ok3, s3, st3) \<Rightarrow>
                 \<not> ok3 \<and> split_size cs (chunkScale s3) = 2 \<and>
                 (case check_chunk s3 (take 2 es) (take 2 ds) of
                    Inl e \<Rightarrow> False
                  | Inr (ok4, s4, st4) \<Rightarrow>
                      ok4 \<and>
                      collect (local_graph s4 (join_stale st3 st4)) 2 [] [] (drop 2 es) (drop 2 ds)
                        = Inr ([(2, 3), (0, 2)], take 2 (drop 2 ds), drop 4 es, drop 4 ds) \<and>
                      (case check_chunk s4 [(2, 3), (0, 2)] (take 2 (drop 2 ds)) of
                         Inl e \<Rightarrow> False
                       | Inr (ok5, s5, st5) \<Rightarrow>
                           \<not> ok5 \<and>
                           get_edge_data (tmp_subgraph s4) 2 3 = None \<and>
                           \<not> has_node (tmp_subgraph s4) 3 \<and>
                           map_option score (get_edge_data (tmp_subgraph s5) 2 3) = Some (8/25) \<and>
                           has_node (tmp_subgraph s5) 3))))"
  by code_simp

subsection \<open>The empty chunk\<close>

text \<open>
  C9. \<^verbatim>\<open>all([])\<close> is true, so \<^verbatim>\<open>check_chunk\<close> on the empty chunk does not return through
  the branch of the chunks without a removable edge: it removes nothing, reduces the
  current subgraph, and on acceptance makes the reduction the current subgraph; on
  rejection the state is unchanged. The reduction need not be the graph itself: for
  the six intermediates of \<open>detour\<close> the subgraph that \<^verbatim>\<open>build_map\<close> starts the main loop
  with has five nodes and six edges, and \<^verbatim>\<open>check_chunk\<close> on the empty chunk accepts and
  leaves three nodes and three edges.
\<close>

theorem check_chunk_empty:
  "check_chunk self [] [] =
     (case reduce_graph self (tmp_subgraph self) of
        Inl e \<Rightarrow> Inl e
      | Inr ex \<Rightarrow> if check_constraints self ex
                  then Inr (True, self\<lparr>tmp_subgraph := ex\<rparr>, Some (tmp_subgraph self))
                  else Inr (False, self, None)) \<and>
   (case find_optimal_path (generator_of (default_params (unnamed 6)) detour) of
      Inl e \<Rightarrow> False
    | Inr (fp, s1) \<Rightarrow>
        (case prune_setup (\<lambda>n c. 0) s1 of
           Inl e \<Rightarrow> False
         | Inr (s2, es, ds, cs) \<Rightarrow>
             (case check_chunk s2 [] [] of
                Inl e \<Rightarrow> False
              | Inr (ok, s3, st) \<Rightarrow>
                  ok \<and> length (nodes_of (tmp_subgraph s2)) = 5 \<and>
                  length (edge_list (tmp_subgraph s2)) = 6 \<and>
                  length (nodes_of (tmp_subgraph s3)) = 3 \<and>
                  length (edge_list (tmp_subgraph s3)) = 3)))"
proof (rule conjI)
  show "check_chunk self [] [] =
     (case reduce_graph self (tmp_subgraph self) of
        Inl e \<Rightarrow> Inl e
      | Inr ex \<Rightarrow> if check_constraints self ex
                  then Inr (True, self\<lparr>tmp_subgraph := ex\<rparr>, Some (tmp_subgraph self))
                  else Inr (False, self, None))"
    by (auto simp: check_chunk_def remove_edges_from_Nil restore_edges_Nil
        split: sum.splits dest: reduce_graph_nodes)
next
  show "(case find_optimal_path (generator_of (default_params (unnamed 6)) detour) of
      Inl e \<Rightarrow> False
    | Inr (fp, s1) \<Rightarrow>
        (case prune_setup (\<lambda>n c. 0) s1 of
           Inl e \<Rightarrow> False
         | Inr (s2, es, ds, cs) \<Rightarrow>
             (case check_chunk s2 [] [] of
                Inl e \<Rightarrow> False
              | Inr (ok, s3, st) \<Rightarrow>
                  ok \<and> length (nodes_of (tmp_subgraph s2)) = 5 \<and>
                  length (edge_list (tmp_subgraph s2)) = 6 \<and>
                  length (nodes_of (tmp_subgraph s3)) = 3 \<and>
                  length (edge_list (tmp_subgraph s3)) = 3)))"
    by code_simp
qed

subsection \<open>The snapshot sets\<close>

text \<open>
  C2 (as the code has it). \<^verbatim>\<open>build_map\<close> takes the two snapshots from the graph that
  \<^verbatim>\<open>generate_initial_graph\<close> returns, before the reachable, cycle and main subgraph
  reduction, and nothing assigns them again: in the state \<^verbatim>\<open>build_map\<close> ends with,
  \<^verbatim>\<open>initialCycledNodesSet\<close> and \<^verbatim>\<open>initialCycledEdgesSet\<close> are the cycled nodes and the
  cycled edges of the unreduced initial graph.
\<close>

theorem snapshot_from_unreduced_graph:
  assumes "build_map ext ilog limit self = Inr (g, self')" and "\<not> optimal_path_mode self"
  shows "\<exists>g0. generate_initial_graph self' = Inr g0 \<and>
           initialCycledNodesSet self' = get_cycled_nodes self' g0 \<and>
           initialCycledEdgesSet self' = get_cycled_edges self' g0"
proof -
  from build_map_pruned[OF assms] obtain fp s1 opg s3 es ds cs s4 where
    p: "prune_setup ilog (s1\<lparr>optimal_path_graph := opg\<rparr>) = Inr (s3, es, ds, cs)"
    and l: "main_loop limit s3 cs es ds = Inr s4"
    and f: "prune_finish s4 = Inr (g, self')"
    by blast
  let ?s2 = "s1\<lparr>optimal_path_graph := opg\<rparr>"
  from prune_setup_state[OF p] obtain g0 ex where
    g0: "generate_initial_graph ?s2 = Inr g0"
    and s3: "s3 = ?s2\<lparr>scoresList := score_list g0,
                  initialCycledNodesSet := get_cycled_nodes ?s2 g0,
                  initialCycledEdgesSet := get_cycled_edges ?s2 g0,
                  tmp_subgraph := ex\<rparr>"
    by blast
  from main_loop_frame[OF l] obtain h where s4: "s4 = s3\<lparr>tmp_subgraph := h\<rparr>"
    by (auto simp: frame_def)
  from prune_finish_state[OF f] obtain sl where
    s': "self' = s4\<lparr>scoresList := sl, final_graph := g\<rparr>"
    by blast
  have "generate_initial_graph self' = generate_initial_graph ?s2"
    by (rule generate_initial_graph_cong) (simp_all add: s' s4 s3)
  moreover have "get_cycled_nodes self' g0 = get_cycled_nodes ?s2 g0"
    by (rule get_cycled_nodes_cong) (simp_all add: s' s4 s3)
  moreover have "get_cycled_edges self' g0 = get_cycled_edges ?s2 g0"
    by (rule get_cycled_edges_cong) (simp_all add: s' s4 s3)
  moreover have "initialCycledNodesSet self' = get_cycled_nodes ?s2 g0"
    and "initialCycledEdgesSet self' = get_cycled_edges ?s2 g0"
    by (simp_all add: s' s4 s3)
  ultimately show ?thesis using g0 by simp
qed

theorem snapshot_witness:
  "case build_map no_scoring (\<lambda>n c. 0) 10
          (generator_of (default_params (unnamed 5)) hanging_triangle) of
     Inl e \<Rightarrow> False
   | Inr (g, self) \<Rightarrow>
       (\<exists>g0. generate_initial_graph self = Inr g0 \<and>
           initialCycledNodesSet self = get_cycled_nodes self g0 \<and>
           initialCycledEdgesSet self = get_cycled_edges self g0)"
proof -
  let ?self = "generator_of (default_params (unnamed 5)) hanging_triangle"
  have m: "\<not> optimal_path_mode ?self" by code_simp
  have ok: "case build_map no_scoring (\<lambda>n c. 0) 10 ?self of Inl e \<Rightarrow> False | Inr p \<Rightarrow> True"
    by code_simp
  show ?thesis
  proof (cases "build_map no_scoring (\<lambda>n c. 0) 10 ?self")
    case (Inl e)
    with ok show ?thesis by simp
  next
    case (Inr p)
    obtain g s where p: "p = (g, s)" by (cases p)
    from snapshot_from_unreduced_graph[OF Inr[unfolded p] m] Inr p show ?thesis by simp
  qed
qed

text \<open>
  C2 as stated fails. Five intermediates with the matrix \<open>hanging_triangle\<close>: the found
  path is 0-2-1, and node 2 lies on the triangle 2-3-4, whose other nodes are on no
  path from 0 to 1. The snapshot of the cycled nodes is \<open>{2}\<close>, taken from the unreduced
  graph; the reduced graph has lost the triangle, and its cycled nodes are \<open>{}\<close>.
\<close>

theorem snapshot_counterexample:
  "case build_map no_scoring (\<lambda>n c. 0) 10
          (generator_of (default_params (unnamed 5)) hanging_triangle) of
     Inl e \<Rightarrow> False
   | Inr (g, self) \<Rightarrow>
       (case generate_initial_graph self of
          Inl e \<Rightarrow> False
        | Inr g0 \<Rightarrow>
            (case reduce_graph self g0 of
               Inl e \<Rightarrow> False
             | Inr r \<Rightarrow>
                 found_path self = [0, 2, 1] \<and>
                 initialCycledNodesSet self = {2} \<and>
                 get_cycled_nodes self g0 = {2} \<and>
                 get_cycled_nodes self r = {}))"
  by code_simp

subsection \<open>The found path in the returned graph\<close>

text \<open>
  C5. When \<^verbatim>\<open>build_map\<close> returns a graph and \<^verbatim>\<open>optimal_path_mode\<close> is off, the found path
  of the final state is the path \<^verbatim>\<open>find_optimal_path\<close> returned, and every consecutive
  pair of its nodes is an edge of the returned graph, flagged \<^verbatim>\<open>found_path\<close>. The flagged
  edges are in the initial graph; the reductions keep every edge between nodes of the
  found path; \<^verbatim>\<open>check_chunk\<close> removes a chunk only when none of its edges is flagged and
  re-inserts only such edges; the final sweep skips the flagged edges.
\<close>

theorem found_path_edges_in_result:
  assumes "build_map ext ilog limit self = Inr (g, self')" and "\<not> optimal_path_mode self"
  shows "(\<exists>s1. find_optimal_path (get_score_matrix ext self) = Inr (found_path self', s1)) \<and>
         (\<forall>(u, v) \<in> set (path_links (found_path self')).
            \<exists>d. get_edge_data g u v = Some d \<and> found_path_attr d = Some True)"
proof -
  from build_map_pruned[OF assms] obtain fp s1 opg s3 es ds cs s4 where
    fo: "find_optimal_path (get_score_matrix ext self) = Inr (fp, s1)"
    and p: "prune_setup ilog (s1\<lparr>optimal_path_graph := opg\<rparr>) = Inr (s3, es, ds, cs)"
    and l: "main_loop limit s3 cs es ds = Inr s4"
    and f: "prune_finish s4 = Inr (g, self')"
    by blast
  let ?s2 = "s1\<lparr>optimal_path_graph := opg\<rparr>"
  from prune_setup_state[OF p] obtain g0 ex where
    g0: "generate_initial_graph ?s2 = Inr g0"
    and es: "es = map (\<lambda>(i, j, d). (i, j)) (score_list g0)"
    and ds: "edge_data_list g0 (score_list g0) = Inr ds"
    and ex: "reduce_graph s3 g0 = Inr ex"
    and s3: "s3 = ?s2\<lparr>scoresList := score_list g0,
                  initialCycledNodesSet := get_cycled_nodes ?s2 g0,
                  initialCycledEdgesSet := get_cycled_edges ?s2 g0,
                  tmp_subgraph := ex\<rparr>"
    by blast
  have fp3: "found_path s3 = found_path ?s2" by (simp add: s3)
  from generate_initial_graph_flagged[OF g0] have i0: "found_edges_flagged s3 g0"
    by (simp add: found_edges_flagged_def fp3)
  with flagged_reduce_graph[OF ex] have i3: "found_edges_flagged s3 (tmp_subgraph s3)"
    by (simp add: s3)
  from edge_data_list_chunk_ok[OF ds i0] have c: "chunk_ok s3 es ds" by (simp add: es)
  from main_loop_flagged[OF l i3 c] have i4: "found_edges_flagged s3 (tmp_subgraph s4)" .
  from main_loop_frame[OF l] have fp4: "found_path s4 = found_path s3" by (rule frame_found_path)
  let ?s5 = "s4\<lparr>scoresList := score_list (tmp_subgraph s4)\<rparr>"
  from prune_finish_state[OF f] obtain h where
    sw: "final_sweep ?s5 (tmp_subgraph s4) (score_list (tmp_subgraph s4)) = Inr h"
    and ms: "get_main_subgraph ?s5 h = Inr g"
    and s': "self' = s4\<lparr>scoresList := score_list (tmp_subgraph s4), final_graph := g\<rparr>"
    by blast
  from i4 have "found_edges_flagged ?s5 (tmp_subgraph s4)"
    by (simp add: found_edges_flagged_def fp4)
  from final_sweep_flagged[OF sw this] have "found_edges_flagged ?s5 h" .
  with flagged_main_subgraph[OF ms] have "found_edges_flagged ?s5 g" by simp
  then have "found_edges_flagged self' g" by (simp add: found_edges_flagged_def s')
  then have edges: "\<forall>(u, v) \<in> set (path_links (found_path self')).
            \<exists>d. get_edge_data g u v = Some d \<and> found_path_attr d = Some True"
    by (auto simp: found_edges_flagged_def list_all_iff flagged_edge_def split: option.splits)
  from find_optimal_path_state[OF fo] have "found_path s1 = fp" by simp
  with fp3 fp4 s' have "found_path self' = fp" by simp
  with fo edges show ?thesis by blast
qed

theorem found_path_edges_in_result_witness:
  "case build_map no_scoring (\<lambda>n c. 0) 10
          (generator_of (default_params (unnamed 5)) hanging_triangle) of
     Inl e \<Rightarrow> False
   | Inr (g, self) \<Rightarrow>
       found_path self = [0, 2, 1] \<and>
       (\<exists>d. get_edge_data g 0 2 = Some d \<and> found_path_attr d = Some True) \<and>
       (\<exists>d. get_edge_data g 2 1 = Some d \<and> found_path_attr d = Some True)"
proof -
  let ?self = "generator_of (default_params (unnamed 5)) hanging_triangle"
  have m: "\<not> optimal_path_mode ?self" by code_simp
  have ok: "case build_map no_scoring (\<lambda>n c. 0) 10 ?self of
              Inl e \<Rightarrow> False | Inr (g, self) \<Rightarrow> found_path self = [0, 2, 1]"
    by code_simp
  show ?thesis
  proof (cases "build_map no_scoring (\<lambda>n c. 0) 10 ?self")
    case (Inl e)
    with ok show ?thesis by simp
  next
    case (Inr p)
    obtain g s where p: "p = (g, s)" by (cases p)
    from ok Inr p have fp: "found_path s = [0, 2, 1]" by simp
    from found_path_edges_in_result[OF Inr[unfolded p] m] fp Inr p show ?thesis by simp
  qed
qed

subsection \<open>\<^verbatim>\<open>make_graph\<close> and the single pass\<close>



subsection \<open>The optimal path\<close>



subsection \<open>No path\<close>

text \<open>
  C8 (as the code has it). For an object whose \<^verbatim>\<open>N\<close> is the number of its names, with an
  N by N score matrix and source and target indices below \<^verbatim>\<open>N\<close>: the graph at
  \<^verbatim>\<open>minScoreThreshold\<close> is built, \<^verbatim>\<open>find_optimal_path\<close> raises the no-path exception exactly
  when that graph has no simple path from the source to the target with at most
  \<^verbatim>\<open>maxOptimalPathLength\<close> edges, and when there is such a path it returns a path and
  records it as the found path.
\<close>

theorem find_optimal_path_no_path:
  assumes "N self = length (intermediate_names self)" and "score_matrix self = Some m"
    and "square m (N self)"
    and "source_node_index self < N self" and "target_node_index self < N self"
  shows "\<exists>g. make_graph self None = Inr g \<and>
           (find_optimal_path self = Inl NoPathFound \<longleftrightarrow>
              \<not> (\<exists>q. simple_path g (source_node_index self) (target_node_index self) q \<and>
                       length (path_links q) \<le> maxOptimalPathLength self)) \<and>
           ((\<exists>q. simple_path g (source_node_index self) (target_node_index self) q \<and>
                       length (path_links q) \<le> maxOptimalPathLength self) \<longrightarrow>
              (\<exists>p self'. find_optimal_path self = Inr (p, self') \<and> found_path self' = p))"
proof -
  from make_graph_total[OF assms(1-3), of "Some (roughScoreThreshold self)"] assms(4,5)
  obtain rough where r: "make_graph self (Some (roughScoreThreshold self)) = Inr rough"
    and rn: "has_node rough (source_node_index self)" "has_node rough (target_node_index self)"
    by auto
  from make_graph_total[OF assms(1-3), of None] assms(4,5)
  obtain g where g: "make_graph self None = Inr g" and kn: "keys_normal g"
    and gn: "has_node g (source_node_index self)" "has_node g (target_node_index self)"
    by auto
  from gn obtain paths where
    a: "all_simple_paths g (source_node_index self) (target_node_index self)
          (maxOptimalPathLength self) = Inr paths"
    by (cases "source_node_index self = target_node_index self")
       (simp_all add: all_simple_paths_def)
  have paths_eq: "set paths = {q. simple_path g (source_node_index self) (target_node_index self) q \<and>
                           length (path_links q) \<le> maxOptimalPathLength self}"
    by (rule all_simple_paths_set[OF a])
  let ?ex = "\<exists>q. simple_path g (source_node_index self) (target_node_index self) q \<and>
               length (path_links q) \<le> maxOptimalPathLength self"
  have ex_iff: "?ex \<longleftrightarrow> paths \<noteq> []"
  proof
    assume ?ex
    then obtain q where "q \<in> set paths" unfolding paths_eq by blast
    then show "paths \<noteq> []" by auto
  next
    assume "paths \<noteq> []"
    then obtain q where "q \<in> set paths" by (cases paths) auto
    then show ?ex unfolding paths_eq by blast
  qed
  have unf: "find_optimal_path self =
      (if length paths = 0 then Inl NoPathFound
       else (case path_scores_list g paths of
               Inl e \<Rightarrow> Inl e
             | Inr pss \<Rightarrow>
                 (let sum_scores = map (\<lambda>scores. np_sum (map np_recip scores)) pss;
                      best_idx = argmin sum_scores;
                      fp = paths ! best_idx
                  in Inr (fp, self\<lparr>found_path := fp,
                                   found_links := map ordered_link (path_links fp)\<rparr>))))"
    unfolding find_optimal_path_def using r rn g a by simp
  show ?thesis
  proof (cases "paths = []")
    case True
    with unf have "find_optimal_path self = Inl NoPathFound" by simp
    with True ex_iff g show ?thesis by simp
  next
    case False
    have "p \<noteq> [] \<and> walk g (hd p) (tl p)" if "p \<in> set paths" for p
    proof -
      from that have "simple_path g (source_node_index self) (target_node_index self) p"
        unfolding paths_eq by simp
      then show ?thesis unfolding simple_path_def by blast
    qed
    from paths_scores_list_total[OF kn this] obtain pss where
      s: "path_scores_list g paths = Inr pss" by blast
    from unf False s obtain p self' where
      res: "find_optimal_path self = Inr (p, self')" and fp: "found_path self' = p"
      by (simp add: Let_def)
    from res have "find_optimal_path self \<noteq> Inl NoPathFound" by simp
    with False ex_iff g res fp show ?thesis by blast
  qed
qed

theorem find_optimal_path_no_path_witness:
  "find_optimal_path (generator_of (default_params (unnamed 3)) all_weak) = Inl NoPathFound \<and>
   (\<exists>g. make_graph (generator_of (default_params (unnamed 3)) all_weak) None = Inr g \<and>
        \<not> (\<exists>q. simple_path g 0 1 q \<and> length (path_links q) \<le> 3))"
proof -
  let ?self = "generator_of (default_params (unnamed 3)) all_weak"
  have h: "N ?self = length (intermediate_names ?self)" "score_matrix ?self = Some all_weak"
    "source_node_index ?self < N ?self" "target_node_index ?self < N ?self"
    by code_simp+
  have sq: "square all_weak (N ?self)" by code_simp
  have par: "source_node_index ?self = 0" "target_node_index ?self = 1"
    "maxOptimalPathLength ?self = 3"
    by code_simp+
  have r: "find_optimal_path ?self = Inl NoPathFound" by code_simp
  from find_optimal_path_no_path[OF h(1,2) sq h(3,4)] r show ?thesis
    unfolding par by auto
qed

text \<open>
  C8 as stated fails for a target index that is no node: two intermediates and
  \<^verbatim>\<open>target_node_index = 5\<close>. The graph has no path from node 0 to a node 5, and the
  exception is networkx's \<^verbatim>\<open>NodeNotFound\<close>, raised by \<^verbatim>\<open>nx.has_path\<close>, not the no-path
  exception of line 106.
\<close>

theorem find_optimal_path_no_path_counterexample:
  "find_optimal_path
     (generator_of ((default_params (unnamed 2))\<lparr>target_node_index := 5\<rparr>) raw_pair)
     = Inl NodeNotFound \<and>
   (\<exists>g. make_graph
          (generator_of ((default_params (unnamed 2))\<lparr>target_node_index := 5\<rparr>) raw_pair) None
          = Inr g \<and>
        \<not> (\<exists>q. simple_path g 0 5 q \<and> length (path_links q) \<le> 3))"
proof -
  let ?self = "generator_of ((default_params (unnamed 2))\<lparr>target_node_index := 5\<rparr>) raw_pair"
  have r: "find_optimal_path ?self = Inl NodeNotFound" by code_simp
  have g: "case make_graph ?self None of Inl e \<Rightarrow> False | Inr g \<Rightarrow> \<not> has_node g 5"
    by code_simp
  show ?thesis
  proof (cases "make_graph ?self None")
    case (Inl e)
    with g show ?thesis by simp
  next
    case (Inr h)
    with g have "\<not> has_node h 5" by simp
    then have "\<not> (\<exists>q. simple_path h 0 5 q \<and> length (path_links q) \<le> 3)"
      by (simp add: simple_path_def)
    with r Inr show ?thesis by simp
  qed
qed

end
